theory Spec2Isabelle
  imports
    Complex_Main
    "HOL-Library.Product_Lexorder"
    "HOL-Library.List_Lexorder"
    "HOL-Library.Sublist"
    "HOL-Library.Multiset"
begin

section \<open>Geometry pipeline of png2obj: shallow embedding\<close>

text \<open>
  The definitions below follow \<^verbatim>\<open>tools/png2obj/png2obj.py\<close> and
  \<^verbatim>\<open>tools/png2obj/wavefront.py\<close>. Python tuples of integers are pairs of
  \<^typ>\<open>int\<close>, ordered lexicographically as Python orders tuples; Python lists are
  HOL lists, ordered lexicographically as Python orders lists. An exception is the
  left injection of a sum; a loop whose termination depends on its input is a
  \<^theory_text>\<open>partial_function\<close> in the option monad, \<open>None\<close> meaning that it
  never returns.
\<close>

subsection \<open>Exceptions\<close>

datatype py_error =
    IndexError
  | KeyError
  | ValueError
  | AssertionError
  | ZeroDivisionError
  | UnboundLocalError
  | OverflowError

subsection \<open>Types and constants\<close>

type_synonym Pos = "int \<times> int"
type_synonym Versor2D = "int \<times> int"
type_synonym Vertex2D = "int \<times> int"
type_synonym Vector2D = "int \<times> int"
type_synonym WallPerimeter = "Vertex2D list"
type_synonym WalkableMatrix = "int list list"
type_synonym BlockMatrix = "(int \<times> int) \<times> (int \<times> int)"

record VertexBoxes =
  upleft :: Pos
  upright :: Pos
  downright :: Pos
  downleft :: Pos

definition LEFT :: Versor2D where "LEFT = (-1, 0)"
definition UP :: Versor2D where "UP = (0, -1)"
definition RIGHT :: Versor2D where "RIGHT = (1, 0)"
definition DOWN :: Versor2D where "DOWN = (0, 1)"
definition HERE :: Versor2D where "HERE = (0, 0)"
definition STILL :: Versor2D where "STILL = (0, 0)"

text \<open>The two lookup tables, as the association lists of their dict literals.\<close>

definition POSSIBLE_DIRECTIONS :: "(BlockMatrix \<times> Versor2D list) list" where
  "POSSIBLE_DIRECTIONS = [
    (((0, 0), (0, 0)), []),
    (((0, 0), (0, 1)), [RIGHT, DOWN]),
    (((0, 0), (1, 0)), [LEFT, DOWN]),
    (((0, 0), (1, 1)), [LEFT, RIGHT]),
    (((0, 1), (0, 0)), [UP, RIGHT]),
    (((0, 1), (0, 1)), [UP, DOWN]),
    (((0, 1), (1, 0)), [LEFT, UP, RIGHT, DOWN]),
    (((0, 1), (1, 1)), [LEFT, UP]),
    (((1, 0), (0, 0)), [LEFT, UP]),
    (((1, 0), (0, 1)), [LEFT, UP, RIGHT, DOWN]),
    (((1, 0), (1, 0)), [UP, DOWN]),
    (((1, 0), (1, 1)), [UP, RIGHT]),
    (((1, 1), (0, 0)), [LEFT, RIGHT]),
    (((1, 1), (0, 1)), [LEFT, DOWN]),
    (((1, 1), (1, 0)), [RIGHT, DOWN]),
    (((1, 1), (1, 1)), [])]"

definition RULES :: "(BlockMatrix \<times> (Versor2D \<times> Versor2D) list) list" where
  "RULES = [
    (((0, 0), (0, 0)),
       [(STILL, STILL), (UP, UP), (LEFT, LEFT), (RIGHT, RIGHT), (DOWN, DOWN)]),
    (((0, 0), (0, 1)), [(STILL, RIGHT), (UP, RIGHT), (LEFT, DOWN)]),
    (((0, 0), (1, 0)), [(STILL, DOWN), (UP, LEFT), (RIGHT, DOWN)]),
    (((0, 0), (1, 1)), [(STILL, RIGHT), (RIGHT, RIGHT), (LEFT, LEFT)]),
    (((0, 1), (0, 0)), [(STILL, UP), (LEFT, UP), (DOWN, RIGHT)]),
    (((0, 1), (0, 1)), [(STILL, UP), (UP, UP), (DOWN, DOWN)]),
    (((0, 1), (1, 0)),
       [(STILL, RIGHT), (UP, RIGHT), (LEFT, DOWN), (RIGHT, UP), (DOWN, LEFT)]),
    (((0, 1), (1, 1)), [(STILL, UP), (RIGHT, UP), (DOWN, LEFT)]),
    (((1, 0), (0, 0)), [(STILL, LEFT), (RIGHT, UP), (DOWN, LEFT)]),
    (((1, 0), (0, 1)),
       [(STILL, RIGHT), (UP, LEFT), (DOWN, RIGHT), (LEFT, UP), (RIGHT, DOWN)]),
    (((1, 0), (1, 0)), [(STILL, UP), (UP, UP), (DOWN, DOWN)]),
    (((1, 0), (1, 1)), [(STILL, RIGHT), (LEFT, UP), (DOWN, RIGHT)]),
    (((1, 1), (0, 0)), [(STILL, RIGHT), (LEFT, LEFT), (RIGHT, RIGHT)]),
    (((1, 1), (0, 1)), [(STILL, LEFT), (UP, LEFT), (RIGHT, DOWN)]),
    (((1, 1), (1, 0)), [(STILL, RIGHT), (UP, RIGHT), (LEFT, DOWN)]),
    (((1, 1), (1, 1)),
       [(STILL, STILL), (UP, STILL), (DOWN, STILL), (LEFT, STILL), (RIGHT, STILL)])]"

text \<open>Subscription of a dict: a missing key raises \<open>KeyError\<close>.\<close>

definition getitem :: "('k \<times> 'v) list \<Rightarrow> 'k \<Rightarrow> py_error + 'v" where
  "getitem d k = (case map_of d k of None \<Rightarrow> Inl KeyError | Some v \<Rightarrow> Inr v)"

definition sum_vectors :: "Vector2D \<Rightarrow> Vector2D \<Rightarrow> Vector2D" where
  "sum_vectors v1 v2 = (fst v1 + fst v2, snd v1 + snd v2)"

subsection \<open>The perimeter normalizer\<close>

text \<open>
  \<^verbatim>\<open>remove_internal_edge_points\<close>: \<open>vertices[0]\<close> raises on the empty list;
  the loop runs over \<open>range(1, len(vertices) - 1)\<close>.
\<close>

definition edge_point_step :: "Vertex2D list \<Rightarrow> Vertex2D list \<Rightarrow> nat \<Rightarrow> Vertex2D list" where
  "edge_point_step vertices ret i =
     (let dx1 = fst (vertices ! i) - fst (vertices ! (i - 1));
          dy1 = snd (vertices ! i) - snd (vertices ! (i - 1));
          dx2 = fst (vertices ! (i + 1)) - fst (vertices ! i);
          dy2 = snd (vertices ! (i + 1)) - snd (vertices ! i)
      in if dx1 \<noteq> dx2 \<or> dy1 \<noteq> dy2 then ret @ [vertices ! i] else ret)"

definition remove_internal_edge_points :: "Vertex2D list \<Rightarrow> py_error + Vertex2D list" where
  "remove_internal_edge_points vertices =
     (if vertices = [] then Inl IndexError
      else Inr (foldl (edge_point_step vertices) [vertices ! 0] [1 ..< length vertices - 1]
                @ [last vertices]))"

text \<open>
  \<^verbatim>\<open>remove_contiguous_values\<close> mutates its argument; the model returns the
  final list. \<open>del lst[i]\<close> is \<open>take i lst @ drop (Suc i) lst\<close>.
\<close>

function remove_contiguous_loop :: "nat \<Rightarrow> 'a list \<Rightarrow> 'a list" where
  "remove_contiguous_loop i lst =
     (if int i < int (length lst) - 1 then
        (if lst ! i = lst ! (i + 1)
         then remove_contiguous_loop i (take i lst @ drop (Suc i) lst)
         else remove_contiguous_loop (i + 1) lst)
      else lst)"
  by pat_completeness auto
termination
  by (relation "measure (\<lambda>(i, lst). length lst - i)") auto

declare remove_contiguous_loop.simps [simp del]

definition remove_contiguous_values :: "'a list \<Rightarrow> 'a list" where
  "remove_contiguous_values lst = remove_contiguous_loop 0 lst"

text \<open>
  \<^verbatim>\<open>min\<close> of a list keeps the first of the smallest items and raises
  \<open>ValueError\<close> on the empty list.
\<close>

definition py_min :: "('a::linorder) list \<Rightarrow> py_error + 'a" where
  "py_min xs = (case xs of [] \<Rightarrow> Inl ValueError
                | x # rest \<Rightarrow> Inr (foldl (\<lambda>best item. if item < best then item else best) x rest))"

text \<open>\<^verbatim>\<open>deque.rotate(1)\<close>: the last item moves to the front.\<close>

definition deque_rotate1 :: "'a list \<Rightarrow> 'a list" where
  "deque_rotate1 deq = (if deq = [] then [] else last deq # butlast deq)"

text \<open>
  The loop \<^verbatim>\<open>while deq[0] != minimum: deq.rotate(1)\<close>. Nothing in the loop
  bounds the number of rotations, so it is a partial function.
\<close>

partial_function (option) rotate_to_minimum :: "'a \<Rightarrow> 'a list \<Rightarrow> (py_error + 'a list) option" where
  "rotate_to_minimum minimum deq =
     (if deq = [] then Some (Inl IndexError)
      else if deq ! 0 \<noteq> minimum then rotate_to_minimum minimum (deque_rotate1 deq)
      else Some (Inr deq))"

declare rotate_to_minimum.simps [code]

definition normalized_perimeter :: "WallPerimeter \<Rightarrow> (py_error + WallPerimeter) option" where
  "normalized_perimeter wall_perimeter =
     (case py_min wall_perimeter of
        Inl e \<Rightarrow> Some (Inl e)
      | Inr minimum \<Rightarrow>
          (case rotate_to_minimum minimum wall_perimeter of
             None \<Rightarrow> None
           | Some (Inl e) \<Rightarrow> Some (Inl e)
           | Some (Inr deq) \<Rightarrow> Some (Inr (remove_contiguous_values (deq @ [deq ! 0])))))"

subsection \<open>The blocks map\<close>

text \<open>
  \<^verbatim>\<open>BlocksMap\<close> is a dict of the non-walkable boxes, kept here as the
  association list of its items, with the map size and the box size.
\<close>

record BlocksMap =
  map_data :: "(Pos \<times> int) list"
  map_size :: "int \<times> int"
  box_size :: int

text \<open>\<^verbatim>\<open>d[k] = v\<close> on a dict: an existing key keeps its place.\<close>

definition setitem :: "('k \<times> 'v) list \<Rightarrow> 'k \<Rightarrow> 'v \<Rightarrow> ('k \<times> 'v) list" where
  "setitem d k v =
     (if k \<in> fst ` set d then map (\<lambda>kv. if fst kv = k then (k, v) else kv) d
      else d @ [(k, v)])"

text \<open>\<^verbatim>\<open>d.get(k, default)\<close>.\<close>

definition dict_get :: "('k \<times> 'v) list \<Rightarrow> 'k \<Rightarrow> 'v \<Rightarrow> 'v" where
  "dict_get d k dflt = (case map_of d k of None \<Rightarrow> dflt | Some v \<Rightarrow> v)"

definition get_grid_vertices :: "BlocksMap \<Rightarrow> Vertex2D list" where
  "get_grid_vertices self =
     (let width = fst (map_size self); height = snd (map_size self)
      in concat (map (\<lambda>bx. map (\<lambda>by. (bx * box_size self, by * box_size self))
                                 [0 .. height - 1])
                     [0 .. width - 1]))"

text \<open>
  \<^verbatim>\<open>int(x / box_size)\<close>: the quotient truncated towards zero (the float
  division is exact for the magnitudes of a raster, below \<open>2 ^ 53\<close>); a zero box
  size raises.
\<close>

definition trunc_div :: "int \<Rightarrow> int \<Rightarrow> int" where
  "trunc_div a b = sgn a * sgn b * (\<bar>a\<bar> div \<bar>b\<bar>)"

definition map_vertex :: "BlocksMap \<Rightarrow> Vertex2D \<Rightarrow> py_error + Pos" where
  "map_vertex self xy =
     (if box_size self = 0 then Inl ZeroDivisionError
      else Inr (trunc_div (fst xy) (box_size self), trunc_div (snd xy) (box_size self)))"

definition vertex2boxes :: "BlocksMap \<Rightarrow> Vertex2D \<Rightarrow> py_error + VertexBoxes" where
  "vertex2boxes self xy =
     (case map_vertex self xy of
        Inl e \<Rightarrow> Inl e
      | Inr b \<Rightarrow> Inr \<lparr>upleft = (fst b - 1, snd b - 1), upright = (fst b, snd b - 1),
                      downright = (fst b, snd b), downleft = (fst b - 1, snd b)\<rparr>)"

definition boxes2block_matrix :: "BlocksMap \<Rightarrow> VertexBoxes \<Rightarrow> BlockMatrix" where
  "boxes2block_matrix self boxes =
     ((dict_get (map_data self) (upleft boxes) 0, dict_get (map_data self) (upright boxes) 0),
      (dict_get (map_data self) (downleft boxes) 0, dict_get (map_data self) (downright boxes) 0))"

subsection \<open>The perimeter tracer\<close>

text \<open>
  The state of the \<^verbatim>\<open>while True\<close> loop of \<^verbatim>\<open>BlocksMap.build\<close>: the
  perimeter so far, the current versor, the current vertex and the counter
  \<^verbatim>\<open>tracked_vertices\<close> (a \<^verbatim>\<open>Counter\<close>: a missing key counts 0).
\<close>

type_synonym Tracked = "Vertex2D \<Rightarrow> nat"
type_synonym WalkState = "WallPerimeter \<times> Versor2D \<times> Vertex2D \<times> Tracked"

definition walk_step :: "BlocksMap \<Rightarrow> WalkState \<Rightarrow> py_error + WalkState" where
  "walk_step self st =
     (case st of (wall_perimeter, versor, wall_vertex, tracked) \<Rightarrow>
      (case vertex2boxes self wall_vertex of
         Inl e \<Rightarrow> Inl e
       | Inr v_boxes \<Rightarrow>
           (let blocks_matrix = boxes2block_matrix self v_boxes in
            (case getitem POSSIBLE_DIRECTIONS blocks_matrix of
               Inl e \<Rightarrow> Inl e
             | Inr versors \<Rightarrow>
                 (let tracked' = tracked(wall_vertex :=
                        tracked wall_vertex + (if length versors = 4 then 1 else 2)) in
                  (case getitem RULES blocks_matrix of
                     Inl e \<Rightarrow> Inl e
                   | Inr rule \<Rightarrow>
                       (case getitem rule versor of
                          Inl e \<Rightarrow> Inl e
                        | Inr versor_next \<Rightarrow>
                            (let v_next = sum_vectors wall_vertex versor_next;
                                 wall_perimeter' = wall_perimeter @ [v_next]
                             in Inr (wall_perimeter', versor_next, last wall_perimeter',
                                     tracked')))))))))"

text \<open>The loop leaves only through \<^verbatim>\<open>if wall_vertex == first_vertex: break\<close>.\<close>

partial_function (option) walk_loop ::
  "BlocksMap \<Rightarrow> Vertex2D \<Rightarrow> WalkState \<Rightarrow> (py_error + WalkState) option" where
  "walk_loop self first_vertex st =
     (case walk_step self st of
        Inl e \<Rightarrow> Some (Inl e)
      | Inr st' \<Rightarrow>
          if fst (snd (snd st')) = first_vertex then Some (Inr st')
          else walk_loop self first_vertex st')"

declare walk_loop.simps [code]

text \<open>
  One round of the \<^verbatim>\<open>for\<close> loop over the grid vertices: the state is the list
  \<^verbatim>\<open>ret\<close> and the counter.
\<close>

type_synonym BuildState = "WallPerimeter list \<times> Tracked"

definition build_vertex ::
  "BlocksMap \<Rightarrow> BuildState \<Rightarrow> Vertex2D \<Rightarrow> (py_error + BuildState) option" where
  "build_vertex self bs vertex =
     (case bs of (ret, tracked) \<Rightarrow>
      (case vertex2boxes self vertex of
         Inl e \<Rightarrow> Some (Inl e)
       | Inr v_boxes \<Rightarrow>
           (let blocks_matrix = boxes2block_matrix self v_boxes in
            (case getitem POSSIBLE_DIRECTIONS blocks_matrix of
               Inl e \<Rightarrow> Some (Inl e)
             | Inr versors \<Rightarrow>
                 (let n_versors = length versors; n_passes = tracked vertex in
                  if n_versors = 0 then Some (Inr bs)
                  else if n_versors = 4 \<and> n_passes > 1 then Some (Inr bs)
                  else if n_versors \<noteq> 4 \<and> n_passes > 0 then Some (Inr bs)
                  else
                    (case walk_loop self vertex ([vertex], (0, 0), vertex, tracked) of
                       None \<Rightarrow> None
                     | Some (Inl e) \<Rightarrow> Some (Inl e)
                     | Some (Inr (wall_perimeter, versor, wall_vertex, tracked')) \<Rightarrow>
                         (case remove_internal_edge_points wall_perimeter of
                            Inl e \<Rightarrow> Some (Inl e)
                          | Inr wall_perimeter1 \<Rightarrow>
                              (case normalized_perimeter wall_perimeter1 of
                                 None \<Rightarrow> None
                               | Some (Inl e) \<Rightarrow> Some (Inl e)
                               | Some (Inr wall_perimeter2) \<Rightarrow>
                                   Some (Inr (ret @ [wall_perimeter2], tracked'))))))))))"

fun build_loop ::
  "BlocksMap \<Rightarrow> Vertex2D list \<Rightarrow> BuildState \<Rightarrow> (py_error + BuildState) option" where
  "build_loop self [] bs = Some (Inr bs)"
| "build_loop self (vertex # rest) bs =
     (case build_vertex self bs vertex of
        None \<Rightarrow> None
      | Some (Inl e) \<Rightarrow> Some (Inl e)
      | Some (Inr bs') \<Rightarrow> build_loop self rest bs')"

text \<open>
  \<^verbatim>\<open>BlocksMap.build\<close> with \<open>debug = False\<close> (the turtle drawing is left
  out). \<open>build_state\<close> is the state when the \<^verbatim>\<open>for\<close> loop ends, \<open>build\<close>
  the sorted list that is returned.
\<close>

definition build_state :: "BlocksMap \<Rightarrow> (py_error + BuildState) option" where
  "build_state self = build_loop self (get_grid_vertices self) ([], \<lambda>v. 0)"

definition build :: "BlocksMap \<Rightarrow> (py_error + WallPerimeter list) option" where
  "build self =
     (if map_data self = [] then Some (Inr [])
      else (case build_state self of
              None \<Rightarrow> None
            | Some (Inl e) \<Rightarrow> Some (Inl e)
            | Some (Inr (ret, tracked)) \<Rightarrow> Some (Inr (sort ret))))"

subsection \<open>From the walkable matrix to the blocks map\<close>

text \<open>
  \<^verbatim>\<open>mat2map\<close>: the loop variables \<open>x\<close> and \<open>y\<close> are read after the loops;
  they are unbound when no round of their loop has run.
\<close>

definition mat2map_row ::
  "int \<Rightarrow> (Pos \<times> int) list \<times> int option \<Rightarrow> int list \<Rightarrow> (Pos \<times> int) list \<times> int option" where
  "mat2map_row y st row =
     foldl (\<lambda>s xw. (if snd xw = 0 then setitem (fst s) (fst xw, y) 1 else fst s, Some (fst xw)))
           st (zip (map int [0 ..< length row]) row)"

definition mat2map_rows ::
  "WalkableMatrix \<Rightarrow> (Pos \<times> int) list \<times> int option \<times> int option" where
  "mat2map_rows matrix =
     foldl (\<lambda>s yr. (case mat2map_row (fst yr) (fst s, fst (snd s)) (snd yr) of
                       (ret, xo) \<Rightarrow> (ret, xo, Some (fst yr))))
           ([], None, None) (zip (map int [0 ..< length matrix]) matrix)"

definition mat2map :: "WalkableMatrix \<Rightarrow> py_error + BlocksMap" where
  "mat2map matrix =
     (case mat2map_rows matrix of (ret, xo, yo) \<Rightarrow>
      (case xo of
         None \<Rightarrow> Inl UnboundLocalError
       | Some x \<Rightarrow>
           (case yo of
              None \<Rightarrow> Inl UnboundLocalError
            | Some y \<Rightarrow> Inr \<lparr>map_data = ret, map_size = (x + 1, y + 1), box_size = 1\<rparr>)))"

text \<open>
  The step vector into the point of index \<open>i\<close>: the difference between it and the
  point before it in the list (used to state what \<^verbatim>\<open>remove_internal_edge_points\<close>
  keeps).
\<close>

definition step_into :: "Vertex2D list \<Rightarrow> nat \<Rightarrow> Vector2D" where
  "step_into vertices i =
     (fst (vertices ! i) - fst (vertices ! (i - 1)), snd (vertices ! i) - snd (vertices ! (i - 1)))"

subsection \<open>The cap triangulation\<close>

text \<open>
  \<^verbatim>\<open>triangulate_walls\<close> hands a dict with the keys \<open>vertices\<close>, \<open>segments\<close> and,
  when there are holes, \<open>holes\<close> to the external \<^verbatim>\<open>triangle.triangulate\<close>, after
  dumping it to two files. The collaborator is a parameter of the model; what the
  function does outside its return value (the two file dumps and the call of the
  collaborator) is recorded, in order, in a list of events. Hole markers have
  fractional coordinates, so they are pairs of rationals.
\<close>

type_synonym Hole = "rat \<times> rat"
type_synonym Triangle2D = "(rat \<times> rat) \<times> (rat \<times> rat) \<times> (rat \<times> rat)"

record TriangleDic =
  dic_vertices :: "Vertex2D list"
  dic_segments :: "(nat \<times> nat) list"
  dic_holes :: "Hole list option"

record TriangleResult =
  tri_vertices :: "rat list list"
  tri_triangles :: "nat list list"

datatype io_event =
    PickleDump TriangleDic
  | WriteDicPy TriangleDic
  | TriangulateCall TriangleDic string

text \<open>\<^verbatim>\<open>xs[i]\<close> for a non-negative index.\<close>

definition list_item :: "'a list \<Rightarrow> nat \<Rightarrow> py_error + 'a" where
  "list_item xs i = (if i < length xs then Inr (xs ! i) else Inl IndexError)"

definition wall_perimeters_to_unique_vertices :: "'v list list \<Rightarrow> 'v list" where
  "wall_perimeters_to_unique_vertices wall_perimeters =
     foldl (\<lambda>ret wall. foldl (\<lambda>ret vertex. if vertex \<notin> set ret then ret @ [vertex] else ret)
                               ret wall)
           [] wall_perimeters"

definition list_to_index_map :: "'a list \<Rightarrow> py_error + ('a \<times> nat) list" where
  "list_to_index_map the_list =
     (if card (set the_list) \<noteq> length the_list then Inl AssertionError
      else Inr (foldl (\<lambda>ret ie. setitem ret (snd ie) (fst ie)) []
                      (zip [0 ..< length the_list] the_list)))"

text \<open>
  The first pair of loops: the segments of every wall, as pairs of vertex indices.
  (The list \<^verbatim>\<open>v_segments\<close> is only appended to and never read; it is left out.)
\<close>

fun segments_of_wall ::
  "('v \<times> nat) list \<Rightarrow> 'v list \<Rightarrow> nat list \<Rightarrow> (nat \<times> nat) list \<Rightarrow> py_error + (nat \<times> nat) list" where
  "segments_of_wall vertices_indices wall [] segments = Inr segments"
| "segments_of_wall vertices_indices wall (i # rest) segments =
     (case getitem vertices_indices (wall ! i) of
        Inl e \<Rightarrow> Inl e
      | Inr a \<Rightarrow>
          (case getitem vertices_indices (wall ! (i + 1)) of
             Inl e \<Rightarrow> Inl e
           | Inr b \<Rightarrow> segments_of_wall vertices_indices wall rest (segments @ [(a, b)])))"

fun segments_of_walls ::
  "('v \<times> nat) list \<Rightarrow> 'v list list \<Rightarrow> (nat \<times> nat) list \<Rightarrow> py_error + (nat \<times> nat) list" where
  "segments_of_walls vertices_indices [] segments = Inr segments"
| "segments_of_walls vertices_indices (wall # rest) segments =
     (if wall = [] then Inl IndexError
      else if wall ! 0 \<noteq> last wall then Inl AssertionError
      else (case segments_of_wall vertices_indices wall [0 ..< length wall - 1] segments of
              Inl e \<Rightarrow> Inl e
            | Inr segments' \<Rightarrow> segments_of_walls vertices_indices rest segments'))"

text \<open>The second pair of loops: every segment is checked against its wall edge.\<close>

fun check_wall ::
  "'v list \<Rightarrow> (nat \<times> nat) list \<Rightarrow> 'v list \<Rightarrow> nat list \<Rightarrow> nat \<Rightarrow> py_error + nat" where
  "check_wall unique_vertices segments wall [] i = Inr i"
| "check_wall unique_vertices segments wall (ie # rest) i =
     (case list_item segments i of
        Inl e \<Rightarrow> Inl e
      | Inr segment \<Rightarrow>
          (case list_item unique_vertices (fst segment) of
             Inl e \<Rightarrow> Inl e
           | Inr va \<Rightarrow>
               (case list_item unique_vertices (snd segment) of
                  Inl e \<Rightarrow> Inl e
                | Inr vb \<Rightarrow>
                    if (va, vb) \<noteq> (wall ! ie, wall ! (ie + 1)) then Inl AssertionError
                    else check_wall unique_vertices segments wall rest (i + 1))))"

fun check_walls ::
  "'v list \<Rightarrow> (nat \<times> nat) list \<Rightarrow> 'v list list \<Rightarrow> nat \<Rightarrow> py_error + nat" where
  "check_walls unique_vertices segments [] i = Inr i"
| "check_walls unique_vertices segments (wall # rest) i =
     (case check_wall unique_vertices segments wall [0 ..< length wall - 1] i of
        Inl e \<Rightarrow> Inl e
      | Inr i' \<Rightarrow> check_walls unique_vertices segments rest i')"

text \<open>The last loop: the triangles of the result, from indices to vertices.\<close>

fun face_of_indices :: "rat list list \<Rightarrow> nat list \<Rightarrow> (rat \<times> rat) list \<Rightarrow> py_error + (rat \<times> rat) list" where
  "face_of_indices vs [] face = Inr face"
| "face_of_indices vs (vertex_index # rest) face =
     (case list_item vs vertex_index of
        Inl e \<Rightarrow> Inl e
      | Inr vertex \<Rightarrow>
          if length vertex \<noteq> 2 then Inl AssertionError
          else face_of_indices vs rest (face @ [(vertex ! 0, vertex ! 1)]))"

fun faces_of_result :: "rat list list \<Rightarrow> nat list list \<Rightarrow> Triangle2D list \<Rightarrow> py_error + Triangle2D list" where
  "faces_of_result vs [] ret = Inr ret"
| "faces_of_result vs (triangle_indices # rest) ret =
     (case face_of_indices vs triangle_indices [] of
        Inl e \<Rightarrow> Inl e
      | Inr face \<Rightarrow>
          if length face < 3 then Inl IndexError
          else faces_of_result vs rest (ret @ [(face ! 0, face ! 1, face ! 2)]))"

definition triangulate_walls ::
  "(TriangleDic \<Rightarrow> string \<Rightarrow> TriangleResult) \<Rightarrow> Vertex2D list list \<Rightarrow> Hole list
     \<Rightarrow> io_event list \<times> (py_error + Triangle2D list)" where
  "triangulate_walls triangulate wall_perimeters holes =
     (let unique_vertices = wall_perimeters_to_unique_vertices wall_perimeters in
      case list_to_index_map unique_vertices of
        Inl e \<Rightarrow> ([], Inl e)
      | Inr vertices_indices \<Rightarrow>
          (case segments_of_walls vertices_indices wall_perimeters [] of
             Inl e \<Rightarrow> ([], Inl e)
           | Inr segments \<Rightarrow>
               (case check_walls unique_vertices segments wall_perimeters 0 of
                  Inl e \<Rightarrow> ([], Inl e)
                | Inr i \<Rightarrow>
                    (let dic = \<lparr>dic_vertices = unique_vertices, dic_segments = segments,
                                dic_holes = (if holes \<noteq> [] then Some holes else None)\<rparr> in
                     if dic_vertices dic = [] then ([], Inr [])
                     else
                       (let tri = triangulate dic ''pc'';
                            events = [PickleDump dic, WriteDicPy dic, TriangulateCall dic ''pc'']
                        in (events, faces_of_result (tri_vertices tri) (tri_triangles tri) []))))))"

subsection \<open>Hole markers\<close>

text \<open>
  \<^verbatim>\<open>matrix2holes\<close>: the marker \<open>(x + 0.5, y + 0.5)\<close> of every box whose entry
  in the walkable matrix is truthy, appended row by row.
\<close>

definition hole_marker :: "nat \<Rightarrow> nat \<Rightarrow> Hole" where
  "hole_marker x y = (of_nat x + 1 / 2, of_nat y + 1 / 2)"

definition matrix2holes_row :: "nat \<Rightarrow> Hole list \<Rightarrow> int list \<Rightarrow> Hole list" where
  "matrix2holes_row y ret row =
     foldl (\<lambda>ret xw. if snd xw \<noteq> 0 then ret @ [hole_marker (fst xw) y] else ret)
           ret (List.enumerate 0 row)"

definition matrix2holes :: "WalkableMatrix \<Rightarrow> Hole list" where
  "matrix2holes matrix =
     foldl (\<lambda>ret yr. matrix2holes_row (fst yr) ret (snd yr)) [] (List.enumerate 0 matrix)"

text \<open>
  The notions of the specification, for comparison: a box is walkable when it lies in
  the matrix and its entry is truthy; two boxes are adjacent when they share an edge;
  a walkable region is a set of walkable boxes connected through adjacent walkable
  boxes. A marker lies in the box given by the integer parts of its coordinates.
  ``One marker per region'' requires at least that no two markers of the list lie in
  the same region.
\<close>

definition walkable_cell :: "WalkableMatrix \<Rightarrow> nat \<times> nat \<Rightarrow> bool" where
  "walkable_cell matrix c \<longleftrightarrow>
     snd c < length matrix \<and> fst c < length (matrix ! snd c) \<and> matrix ! snd c ! fst c \<noteq> 0"

definition adjacent_cells :: "nat \<times> nat \<Rightarrow> nat \<times> nat \<Rightarrow> bool" where
  "adjacent_cells a b \<longleftrightarrow>
     (fst a = fst b \<and> (snd a = Suc (snd b) \<or> snd b = Suc (snd a))) \<or>
     (snd a = snd b \<and> (fst a = Suc (fst b) \<or> fst b = Suc (fst a)))"

inductive same_region :: "WalkableMatrix \<Rightarrow> nat \<times> nat \<Rightarrow> nat \<times> nat \<Rightarrow> bool"
  for matrix :: WalkableMatrix where
  region_refl: "walkable_cell matrix a \<Longrightarrow> same_region matrix a a"
| region_step: "same_region matrix a b \<Longrightarrow> walkable_cell matrix c \<Longrightarrow> adjacent_cells b c
     \<Longrightarrow> same_region matrix a c"

definition marker_cell :: "Hole \<Rightarrow> nat \<times> nat" where
  "marker_cell h = (nat \<lfloor>fst h\<rfloor>, nat \<lfloor>snd h\<rfloor>)"

definition at_most_one_marker_per_region :: "WalkableMatrix \<Rightarrow> Hole list \<Rightarrow> bool" where
  "at_most_one_marker_per_region matrix hs \<longleftrightarrow>
     (\<forall>i < length hs. \<forall>j < length hs.
        i \<noteq> j \<longrightarrow> \<not> same_region matrix (marker_cell (hs ! i)) (marker_cell (hs ! j)))"

subsection \<open>The head of the pipeline\<close>

text \<open>
  A matrix is rectangular when all its rows have the length of the first one (the
  notion of the specification; the code has no such test).
\<close>

definition rectangular :: "WalkableMatrix \<Rightarrow> bool" where
  "rectangular matrix \<longleftrightarrow> (\<forall>row \<in> set matrix. length row = length (hd matrix))"

text \<open>
  The first two steps of \<^verbatim>\<open>matrix2obj\<close>: \<^verbatim>\<open>mat2map\<close>, then the sorted
  result of \<^verbatim>\<open>build\<close> (the turtle drawing that \<^verbatim>\<open>matrix2obj\<close> switches
  on is left out).
\<close>

definition matrix2obj_perimeters :: "WalkableMatrix \<Rightarrow> (py_error + WallPerimeter list) option" where
  "matrix2obj_perimeters matrix =
     (case mat2map matrix of
        Inl e \<Rightarrow> Some (Inl e)
      | Inr blocks_map \<Rightarrow>
          (case build blocks_map of
             None \<Rightarrow> None
           | Some (Inl e) \<Rightarrow> Some (Inl e)
           | Some (Inr wall_perimeters) \<Rightarrow> Some (Inr (sort wall_perimeters))))"

subsection \<open>The Wavefront exporter\<close>

























subsection \<open>The boundary that the tracer follows\<close>

text \<open>
  The notions below are not functions of the program: they describe the walk
  of \<^verbatim>\<open>build\<close> and are used in the proofs about it. A walk is read
  through its control state, the pair of the current vertex and of the versor
  of the last move. \<open>rule_of\<close> is the lookup \<^verbatim>\<open>RULES[blocks_matrix][versor]\<close> as
  an option, \<open>DIRECTIONS\<close> are the four unit versors and \<open>MATRICES\<close> the
  sixteen block matrices with entries 0 and 1.
\<close>

definition DIRECTIONS :: "Versor2D list" where
  "DIRECTIONS = [LEFT, UP, RIGHT, DOWN]"

definition rule_of :: "BlockMatrix \<Rightarrow> Versor2D \<Rightarrow> Versor2D option" where
  "rule_of bm d = (case map_of RULES bm of None \<Rightarrow> None | Some r \<Rightarrow> map_of r d)"

definition MATRICES :: "BlockMatrix list" where
  "MATRICES = concat (map (\<lambda>a. concat (map (\<lambda>b. concat (map (\<lambda>c. map (\<lambda>d. ((a, b), (c, d))) [0, 1]) [0, 1])) [0, 1])) [0, 1])"

text \<open>
  An edge of the grid is a boundary edge when one of the two boxes beside it is a
  block and the other is not. \<open>side_ok w rt lf\<close> fixes on which side the
  block is (\<open>rt\<close> is the box on one side of the move, \<open>lf\<close> the box
  on the other side; \<open>w\<close> chooses between the two windings).
  \<open>arrival_ok bm d w\<close>: the edge by which a move \<open>d\<close> arrives at the
  vertex with block matrix \<open>bm\<close> is a boundary edge of winding \<open>w\<close>;
  \<open>depart_ok bm r w\<close>: the same for the edge by which a move \<open>r\<close>
  leaves that vertex.
\<close>

definition side_ok :: "bool \<Rightarrow> int \<Rightarrow> int \<Rightarrow> bool" where
  "side_ok w rt lf = (if w then rt = 1 \<and> lf = 0 else rt = 0 \<and> lf = 1)"

definition arrival_ok :: "BlockMatrix \<Rightarrow> Versor2D \<Rightarrow> bool \<Rightarrow> bool" where
  "arrival_ok bm d w =
     (if d = RIGHT then side_ok w (fst (snd bm)) (fst (fst bm))
      else if d = LEFT then side_ok w (snd (fst bm)) (snd (snd bm))
      else if d = DOWN then side_ok w (fst (fst bm)) (snd (fst bm))
      else if d = UP then side_ok w (snd (snd bm)) (fst (snd bm))
      else False)"

definition depart_ok :: "BlockMatrix \<Rightarrow> Versor2D \<Rightarrow> bool \<Rightarrow> bool" where
  "depart_ok bm r w =
     (if r = RIGHT then side_ok w (snd (snd bm)) (snd (fst bm))
      else if r = LEFT then side_ok w (fst (fst bm)) (fst (snd bm))
      else if r = DOWN then side_ok w (fst (snd bm)) (snd (snd bm))
      else if r = UP then side_ok w (snd (fst bm)) (fst (fst bm))
      else False)"

text \<open>
  \<open>block_at\<close> is \<^verbatim>\<open>self.map.get(box, 0)\<close> and \<open>matrix_at\<close> the block
  matrix around a vertex when the box size is 1. \<open>unit_boxes\<close> holds for
  the blocks maps with box size 1 whose values are 0 or 1, as \<^verbatim>\<open>mat2map\<close>
  builds them.
\<close>

definition block_at :: "BlocksMap \<Rightarrow> Pos \<Rightarrow> int" where
  "block_at self box = dict_get (map_data self) box 0"

definition matrix_at :: "BlocksMap \<Rightarrow> Vertex2D \<Rightarrow> BlockMatrix" where
  "matrix_at self v =
     ((block_at self (fst v - 1, snd v - 1), block_at self (fst v, snd v - 1)),
      (block_at self (fst v - 1, snd v), block_at self (fst v, snd v)))"

definition unit_boxes :: "BlocksMap \<Rightarrow> bool" where
  "unit_boxes self \<longleftrightarrow>
     box_size self = 1 \<and> (\<forall>kv \<in> set (map_data self). snd kv = 0 \<or> snd kv = 1)"

text \<open>
  \<open>ctl\<close> reads the control state of a state of the walk, \<open>ctl_step\<close>
  is one round of the \<^verbatim>\<open>while\<close> loop on control states, and
  \<open>on_boundary self w c\<close> says that the control state \<open>c\<close> has just moved
  along a boundary edge of winding \<open>w\<close>.
\<close>

definition ctl :: "WalkState \<Rightarrow> Vertex2D \<times> Versor2D" where
  "ctl st = (fst (snd (snd st)), fst (snd st))"

definition ctl_step :: "BlocksMap \<Rightarrow> Vertex2D \<times> Versor2D \<Rightarrow> Vertex2D \<times> Versor2D" where
  "ctl_step self c =
     (case rule_of (matrix_at self (fst c)) (snd c) of
        None \<Rightarrow> c
      | Some r \<Rightarrow> (sum_vectors (fst c) r, r))"

definition on_boundary :: "BlocksMap \<Rightarrow> bool \<Rightarrow> Vertex2D \<times> Versor2D \<Rightarrow> bool" where
  "on_boundary self w c \<longleftrightarrow>
     snd c \<in> set DIRECTIONS \<and> arrival_ok (matrix_at self (fst c)) (snd c) w"

text \<open>
  \<open>closed_loop\<close>: a perimeter whose first vertex is its last vertex.
  \<open>walk_exit\<close>: what holds of a result of the \<^verbatim>\<open>while\<close> loop, when it
  is not an exception. \<open>traced_loop self p\<close>: the perimeter \<open>p\<close> is what
  \<^verbatim>\<open>build\<close> appends after a walk that started at a vertex and stopped
  on that vertex.
\<close>

definition closed_loop :: "WallPerimeter \<Rightarrow> bool" where
  "closed_loop p \<longleftrightarrow> p \<noteq> [] \<and> hd p = last p"

definition walk_exit :: "Vertex2D \<Rightarrow> WalkState \<Rightarrow> py_error + WalkState \<Rightarrow> bool" where
  "walk_exit first_vertex st r = (case r of Inl e \<Rightarrow> True
     | Inr st' \<Rightarrow> fst (snd (snd st')) = first_vertex \<and>
         (\<exists>more. fst st' = fst st @ more \<and> more \<noteq> [] \<and> last more = first_vertex))"

definition traced_loop :: "BlocksMap \<Rightarrow> WallPerimeter \<Rightarrow> bool" where
  "traced_loop self p \<longleftrightarrow>
     (\<exists>vertex tracked st'.
        walk_loop self vertex ([vertex], (0, 0), vertex, tracked) = Some (Inr st') \<and>
        fst (snd (snd st')) = vertex \<and> hd (fst st') = vertex \<and> last (fst st') = vertex \<and>
        (\<exists>q. remove_internal_edge_points (fst st') = Inr q \<and>
             normalized_perimeter q = Some (Inr p)))"

section \<open>Verification\<close>

subsection \<open>The tracer on the single blocked box\<close>

text \<open>
  Claim C6. The walkable matrix \<open>[[0]]\<close> (one box, blocked) becomes the blocks map
  with the one block \<open>(0, 0)\<close> and map size \<open>(1, 1)\<close>, and \<^verbatim>\<open>build\<close> returns on
  it exactly one wall perimeter, \<open>[(0,0), (1,0), (1,1), (0,1), (0,0)]\<close>.
\<close>

theorem build_full1x1:
  "mat2map [[0]] = Inr \<lparr>map_data = [((0, 0), 1)], map_size = (1, 1), box_size = 1\<rparr> \<and>
   build \<lparr>map_data = [((0, 0), 1)], map_size = (1, 1), box_size = 1\<rparr>
     = Some (Inr [[(0, 0), (1, 0), (1, 1), (0, 1), (0, 0)]])"
  by code_simp

subsection \<open>The normalizer\<close>

lemma remove_contiguous_loop_eq:
  "remove_contiguous_loop i lst = take i lst @ remdups_adj (drop i lst)"
proof (induction i lst rule: remove_contiguous_loop.induct)
  case (1 i lst)
  show ?case
  proof (cases "int i < int (length lst) - 1")
    case False
    then have "length (drop i lst) \<le> 1" by simp
    then have "remdups_adj (drop i lst) = drop i lst"
      by (cases "drop i lst"; cases "tl (drop i lst)") auto
    with False show ?thesis
      by (subst remove_contiguous_loop.simps) simp
  next
    case True
    then have len: "Suc i < length lst" by linarith
    define a where "a = lst ! i"
    define b where "b = lst ! (i + 1)"
    define rest where "rest = drop (Suc (Suc i)) lst"
    have d1: "drop (Suc i) lst = b # rest"
      using len unfolding b_def rest_def by (simp add: Cons_nth_drop_Suc)
    have d: "drop i lst = a # b # rest"
      using len unfolding a_def d1[symmetric] by (simp add: Cons_nth_drop_Suc)
    have li: "length (take i lst) = i" using len by simp
    show ?thesis
    proof (cases "a = b")
      case eq: True
      then have c: "lst ! i = lst ! (i + 1)" by (simp add: a_def b_def)
      have "remove_contiguous_loop i lst = remove_contiguous_loop i (take i lst @ drop (Suc i) lst)"
        using True c by (subst remove_contiguous_loop.simps) simp
      also have "\<dots> = take i (take i lst @ drop (Suc i) lst) @
                        remdups_adj (drop i (take i lst @ drop (Suc i) lst))"
        by (rule "1.IH"(1)[OF True c])
      also have "\<dots> = take i lst @ remdups_adj (drop (Suc i) lst)"
        using li by simp
      also have "\<dots> = take i lst @ remdups_adj (drop i lst)"
        unfolding d d1 using eq by simp
      finally show ?thesis .
    next
      case neq: False
      then have c: "lst ! i \<noteq> lst ! (i + 1)" by (simp add: a_def b_def)
      have t: "take (Suc i) lst = take i lst @ [a]"
        using len unfolding a_def by (simp add: take_Suc_conv_app_nth)
      have "remove_contiguous_loop i lst = remove_contiguous_loop (i + 1) lst"
        using True c by (subst remove_contiguous_loop.simps) simp
      also have "\<dots> = take (i + 1) lst @ remdups_adj (drop (i + 1) lst)"
        by (rule "1.IH"(2)[OF True c])
      also have "\<dots> = take i lst @ remdups_adj (drop i lst)"
        unfolding d using neq t d1 by simp
      finally show ?thesis .
    qed
  qed
qed

lemma remove_contiguous_values_eq: "remove_contiguous_values lst = remdups_adj lst"
  by (simp add: remove_contiguous_values_def remove_contiguous_loop_eq)

lemma py_min_foldl:
  "foldl (\<lambda>best item. if item < best then item else best) x ys = Min (insert x (set ys))"
proof (induction ys arbitrary: x)
  case Nil
  then show ?case by simp
next
  case (Cons y ys)
  have m: "(if y < x then y else x) = min x y" by (auto simp: min_def)
  have "Min (insert (min x y) (set ys)) = Min (insert x (insert y (set ys)))"
    by (cases "set ys = {}") (simp_all add: min.assoc)
  then show ?case using Cons.IH[of "min x y"] m by simp
qed

lemma py_min_eq: "xs \<noteq> [] \<Longrightarrow> py_min xs = Inr (Min (set xs))"
  by (cases xs) (simp_all add: py_min_def py_min_foldl)


lemma rotate_to_minimum_hd:
  "deq \<noteq> [] \<Longrightarrow> hd deq = m \<Longrightarrow> rotate_to_minimum m deq = Some (Inr deq)"
  by (subst rotate_to_minimum.simps) (simp add: hd_conv_nth)

lemma rotate_to_minimum_split:
  "m \<notin> set vs \<Longrightarrow> us \<noteq> [] \<Longrightarrow> hd us \<noteq> m \<Longrightarrow>
   rotate_to_minimum m (us @ m # vs) = Some (Inr (m # vs @ us))"
proof (induction vs arbitrary: us rule: rev_induct)
  case Nil
  then show ?case
    by (subst rotate_to_minimum.simps)
       (simp add: deque_rotate1_def rotate_to_minimum_hd nth_append hd_conv_nth butlast_append)
next
  case (snoc w ws)
  have "rotate_to_minimum m (us @ m # ws @ [w]) = rotate_to_minimum m ((w # us) @ m # ws)"
    using snoc.prems
    by (subst rotate_to_minimum.simps)
       (simp add: deque_rotate1_def nth_append hd_conv_nth butlast_append)
  also have "\<dots> = Some (Inr (m # ws @ (w # us)))"
    using snoc.prems by (intro snoc.IH) auto
  finally show ?case by simp
qed

lemma remdups_adj_dup: "remdups_adj (xs @ a # a # ys) = remdups_adj (xs @ a # ys)"
  by (simp add: remdups_adj_append[of xs a "a # ys"] remdups_adj_append[of xs a ys])

lemma normalized_perimeter_rotate:
  assumes "p \<noteq> []"
  shows "\<exists>k. k < length p \<and> hd (rotate k p) = Min (set p) \<and> (k \<noteq> 0 \<longrightarrow> hd p \<noteq> Min (set p)) \<and>
             normalized_perimeter p = Some (Inr (remdups_adj (rotate k p @ [Min (set p)])))"
proof -
  let ?m = "Min (set p)"
  have mem: "?m \<in> set p" using assms by (simp add: Min_in)
  have res: "normalized_perimeter p = Some (Inr (remdups_adj (d @ [?m])))"
    if "rotate_to_minimum ?m p = Some (Inr d)" "hd d = ?m" "d \<noteq> []" for d
    using that assms
    by (simp add: normalized_perimeter_def py_min_eq remove_contiguous_values_eq hd_conv_nth)
  show ?thesis
  proof (cases "hd p = ?m")
    case True
    have "normalized_perimeter p = Some (Inr (remdups_adj (rotate 0 p @ [?m])))"
      using res[of p] True assms by (simp add: rotate_to_minimum_hd)
    then show ?thesis using True assms by (intro exI[of _ 0]) simp
  next
    case False
    obtain us vs where sp: "p = us @ ?m # vs" "?m \<notin> set vs"
      using split_list_last[OF mem] by blast
    have us: "us \<noteq> []" "hd us \<noteq> ?m" using False sp(1)
      by (metis append_Nil list.sel(1), metis False append_Nil hd_append2 list.sel(1) sp(1))
    have r: "rotate_to_minimum ?m (us @ ?m # vs) = Some (Inr (?m # vs @ us))"
      by (rule rotate_to_minimum_split[OF sp(2) us])
    have rot: "rotate (length us) p = ?m # vs @ us"
      using rotate_append[of us "?m # vs"] sp(1) by simp
    have "normalized_perimeter p = Some (Inr (remdups_adj (rotate (length us) p @ [?m])))"
      using res[of "?m # vs @ us"] r sp(1) rot by simp
    moreover have "length us < length p" by (subst sp(1)) simp
    ultimately show ?thesis using rot False by (intro exI[of _ "length us"]) simp
  qed
qed

lemma closed_rotate:
  assumes c: "c \<noteq> []" and k: "k < length (c @ [hd c])"
    and h: "hd (rotate k (c @ [hd c])) = m" and nz: "k \<noteq> 0 \<longrightarrow> hd c \<noteq> m"
  shows "remdups_adj (rotate k (c @ [hd c]) @ [m]) = remdups_adj (rotate k c @ [m]) \<and>
         hd (rotate k c) = m"
proof (cases "k = 0")
  case True
  then have "m = hd c" using h c by simp
  then show ?thesis using True remdups_adj_append_two[of c "hd c" "hd c"] by simp
next
  case False
  let ?p = "c @ [hd c]"
  have rp: "rotate k ?p = drop k ?p @ take k ?p"
    using k by (simp add: rotate_drop_take)
  have kl: "k < length c"
  proof (rule ccontr)
    assume "\<not> k < length c"
    then have "k = length c" using k by simp
    then have "rotate k ?p = hd c # c" using rp by simp
    then show False using h nz False by simp
  qed
  define t where "t = tl (take k c)"
  have tk: "take k c = hd c # t"
    unfolding t_def using False c kl by (cases c; cases k) auto
  have "rotate k ?p = drop k c @ hd c # hd c # t"
    using rp kl tk by simp
  then have "remdups_adj (rotate k ?p @ [m]) = remdups_adj (drop k c @ hd c # hd c # (t @ [m]))"
    by simp
  also have "\<dots> = remdups_adj (drop k c @ hd c # (t @ [m]))"
    by (rule remdups_adj_dup)
  also have "\<dots> = remdups_adj (rotate k c @ [m])"
    using kl tk by (simp add: rotate_drop_take)
  finally have 1: "remdups_adj (rotate k ?p @ [m]) = remdups_adj (rotate k c @ [m])" .
  have "hd (rotate k ?p) = hd (rotate k c)"
    using kl rp by (simp add: rotate_drop_take hd_append)
  then show ?thesis using 1 h by simp
qed

lemma normalized_fixed:
  assumes q: "q \<noteq> []" "hd q = Min (set q)" "last q = hd q" "remdups_adj q = q"
  shows "normalized_perimeter q = Some (Inr q)"
proof -
  have r: "rotate_to_minimum (Min (set q)) q = Some (Inr q)"
    using q by (simp add: rotate_to_minimum_hd)
  define h where "h = hd q"
  obtain b where b: "q = b @ [h]"
    unfolding h_def using q by (metis append_butlast_last_id)
  have "remdups_adj (b @ [h, h]) = remdups_adj (b @ [h])"
    by (simp add: remdups_adj_append_two)
  then have "remdups_adj (q @ [h]) = remdups_adj q"
    unfolding b by simp
  then have "remdups_adj (q @ [q ! 0]) = q"
    using q unfolding h_def by (simp add: hd_conv_nth)
  then show ?thesis using q r
    by (simp add: normalized_perimeter_def py_min_eq remove_contiguous_values_eq)
qed

text \<open>
  Claim C3. Normalizing is idempotent: on every non-empty perimeter (closed or not)
  \<^verbatim>\<open>normalized_perimeter\<close> returns a list, and normalizing that list returns
  it unchanged.
\<close>

theorem normalized_perimeter_idempotent:
  assumes "wall_perimeter \<noteq> []"
  shows "\<exists>q. normalized_perimeter wall_perimeter = Some (Inr q) \<and>
             normalized_perimeter q = Some (Inr q)"
proof -
  let ?m = "Min (set wall_perimeter)"
  obtain k where k: "hd (rotate k wall_perimeter) = ?m"
    "normalized_perimeter wall_perimeter = Some (Inr (remdups_adj (rotate k wall_perimeter @ [?m])))"
    using normalized_perimeter_rotate[OF assms] by blast
  let ?q = "remdups_adj (rotate k wall_perimeter @ [?m])"
  have mem: "?m \<in> set wall_perimeter" using assms by simp
  have s: "set ?q = set wall_perimeter" using mem by auto
  have h: "hd ?q = ?m" using k(1) assms by (simp add: hd_append)
  have "normalized_perimeter ?q = Some (Inr ?q)"
  proof (rule normalized_fixed)
    show "?q \<noteq> []" by simp
    show "hd ?q = Min (set ?q)" using h s by simp
    show "last ?q = hd ?q" using h by simp
    show "remdups_adj ?q = ?q" using distinct_adj_remdups_adj distinct_adj_altdef by blast
  qed
  then show ?thesis using k(2) by blast
qed

theorem normalized_perimeter_idempotent_witness:
  "\<exists>q. normalized_perimeter [(1, 0), (1, 1), (0, 1), (0, 0), (1, 0)] = Some (Inr q) \<and>
       normalized_perimeter q = Some (Inr q)"
  using normalized_perimeter_idempotent[of "[(1, 0), (1, 1), (0, 1), (0, 0), (1, 0)]"] by simp

lemma remdups_adj_snoc_distinct:
  assumes "distinct xs" "xs \<noteq> []" "last xs \<noteq> m"
  shows "remdups_adj (xs @ [m]) = xs @ [m]"
proof -
  obtain ys l where x: "xs = ys @ [l]" using assms(2) by (metis append_butlast_last_id)
  have "remdups_adj (ys @ [l, m]) = remdups_adj (ys @ [l]) @ [m]"
    using assms(3) x by (simp add: remdups_adj_append_two)
  then show ?thesis using assms(1) x by (simp add: remdups_adj_distinct)
qed

lemma lex_le_iff:
  "(a :: int \<times> int) \<le> v \<longleftrightarrow> fst a < fst v \<or> (fst a = fst v \<and> snd a \<le> snd v)"
  by (cases a; cases v) auto

text \<open>
  Claim C4. On a non-empty closed perimeter (first point equal to last),
  \<^verbatim>\<open>normalized_perimeter\<close> returns a list \<open>q\<close> that begins with a point of the
  perimeter that is lexicographically smallest (x first, then y), and ends with that
  same point. The cyclic order is kept: \<open>q\<close> is a rotation of the perimeter's cycle
  (the perimeter without its closing point), closed again with the first point, with
  contiguous repetitions dropped; when the points of the cycle are distinct and there
  are at least two of them, \<open>q\<close> without its closing point is exactly a rotation of
  the cycle.
\<close>

theorem normalized_perimeter_canonical:
  assumes ne: "wall_perimeter \<noteq> []" and closed: "hd wall_perimeter = last wall_perimeter"
  shows "\<exists>q k. normalized_perimeter wall_perimeter = Some (Inr q)
     \<and> hd q \<in> set wall_perimeter
     \<and> (\<forall>v \<in> set wall_perimeter. fst (hd q) < fst v \<or> (fst (hd q) = fst v \<and> snd (hd q) \<le> snd v))
     \<and> last q = hd q
     \<and> q = remdups_adj (rotate k (butlast wall_perimeter) @ [hd q])
     \<and> (distinct (butlast wall_perimeter) \<and> 3 \<le> length wall_perimeter
          \<longrightarrow> butlast q = rotate k (butlast wall_perimeter))"
proof -
  let ?p = wall_perimeter
  let ?m = "Min (set ?p)"
  let ?c = "butlast ?p"
  obtain k where k: "k < length ?p" "hd (rotate k ?p) = ?m" "k \<noteq> 0 \<longrightarrow> hd ?p \<noteq> ?m"
    "normalized_perimeter ?p = Some (Inr (remdups_adj (rotate k ?p @ [?m])))"
    using normalized_perimeter_rotate[OF ne] by blast
  let ?q = "remdups_adj (rotate k ?p @ [?m])"
  have hq: "hd ?q = ?m" using k(2) ne by (simp add: hd_append)
  have mem: "?m \<in> set ?p" using ne by simp
  have low: "\<forall>v \<in> set ?p. fst ?m < fst v \<or> (fst ?m = fst v \<and> snd ?m \<le> snd v)"
  proof (rule ballI)
    fix v assume "v \<in> set ?p"
    then have "?m \<le> v" by simp
    then show "fst ?m < fst v \<or> (fst ?m = fst v \<and> snd ?m \<le> snd v)"
      using lex_le_iff[of ?m v] by blast
  qed
  have lq: "last ?q = ?m" by simp
  have cyc: "?q = remdups_adj (rotate k ?c @ [?m]) \<and>
             (distinct ?c \<and> 3 \<le> length ?p \<longrightarrow> butlast ?q = rotate k ?c)"
  proof (cases "?c = []")
    case True
    then obtain a where a: "?p = [a]" using ne by (metis append_butlast_last_id append_Nil)
    show ?thesis using True a by simp
  next
    case False
    have hc: "hd ?c = hd ?p" using False by (metis hd_append2 append_butlast_last_id ne)
    then have p: "?p = ?c @ [hd ?c]" using closed ne by simp
    have cr: "remdups_adj (rotate k (?c @ [hd ?c]) @ [?m]) = remdups_adj (rotate k ?c @ [?m]) \<and>
          hd (rotate k ?c) = ?m"
      by (rule closed_rotate[OF False]) (use k hc p in auto)
    then have 1: "?q = remdups_adj (rotate k ?c @ [?m])" using p by simp
    have 2: "butlast ?q = rotate k ?c" if d: "distinct ?c" and l: "3 \<le> length ?p"
    proof -
      let ?r = "rotate k ?c"
      have dr: "distinct ?r" "?r \<noteq> []" using d False by simp_all
      have "2 \<le> length ?r" using l by simp
      then obtain x xs where r: "?r = x # xs" "xs \<noteq> []"
        by (cases ?r; cases "tl ?r") auto
      have "last ?r \<noteq> hd ?r"
        using dr(1) unfolding r using r(2) by auto
      then have "remdups_adj (?r @ [?m]) = ?r @ [?m]"
        using cr dr by (intro remdups_adj_snoc_distinct) simp_all
      then show ?thesis using 1 by simp
    qed
    show ?thesis using 1 2 by blast
  qed
  define q where "q = ?q"
  have f1: "normalized_perimeter ?p = Some (Inr q)" unfolding q_def by (rule k(4))
  have f2: "hd q = ?m" unfolding q_def by (rule hq)
  have f3: "last q = ?m" unfolding q_def by (rule lq)
  have f4: "q = remdups_adj (rotate k ?c @ [?m])" unfolding q_def using cyc by blast
  have f5: "distinct ?c \<and> 3 \<le> length ?p \<longrightarrow> butlast q = rotate k ?c"
    unfolding q_def using cyc by blast
  show ?thesis
  proof (intro exI[of _ q] exI[of _ k] conjI)
    show "normalized_perimeter ?p = Some (Inr q)" by (rule f1)
    show "hd q \<in> set ?p" using f2 mem by simp
    show "\<forall>v \<in> set ?p. fst (hd q) < fst v \<or> (fst (hd q) = fst v \<and> snd (hd q) \<le> snd v)"
      using low f2 by simp
    show "last q = hd q" using f2 f3 by simp
    show "q = remdups_adj (rotate k ?c @ [hd q])" using f4 f2 by simp
    show "distinct ?c \<and> 3 \<le> length ?p \<longrightarrow> butlast q = rotate k ?c" by (rule f5)
  qed
qed

theorem normalized_perimeter_canonical_witness:
  "\<exists>q k. normalized_perimeter [(1, 0), (1, 1), (0, 1), (0, 0), (1, 0)] = Some (Inr q)
     \<and> hd q \<in> set [(1, 0), (1, 1), (0, 1), (0, 0), (1, 0)]
     \<and> (\<forall>v \<in> set [(1, 0), (1, 1), (0, 1), (0, 0), (1, 0)].
           fst (hd q) < fst v \<or> (fst (hd q) = fst v \<and> snd (hd q) \<le> snd v))
     \<and> last q = hd q
     \<and> q = remdups_adj (rotate k (butlast [(1, 0), (1, 1), (0, 1), (0, 0), (1, 0)]) @ [hd q])
     \<and> butlast q = rotate k (butlast [(1, 0), (1, 1), (0, 1), (0, 0), (1, 0)])"
proof -
  let ?p = "[(1, 0), (1, 1), (0, 1), (0, 0), (1, 0)] :: WallPerimeter"
  have h1: "?p \<noteq> []" by simp
  have h2: "hd ?p = last ?p" by simp
  have h3: "distinct (butlast ?p) \<and> 3 \<le> length ?p" by simp
  from normalized_perimeter_canonical[OF h1 h2] h3 show ?thesis by blast
qed

lemma foldl_edge_point_step:
  "foldl (edge_point_step vs) acc js =
   acc @ map ((!) vs) (filter (\<lambda>i. step_into vs i \<noteq> step_into vs (i + 1)) js)"
  by (induction js arbitrary: acc) (auto simp: edge_point_step_def step_into_def Let_def)

lemma nths_map_filter:
  "nths xs A = map ((!) xs) (filter (\<lambda>i. i \<in> A) [0 ..< length xs])"
proof (induction xs rule: rev_induct)
  case Nil
  then show ?case by simp
next
  case (snoc x xs)
  have "map ((!) (xs @ [x])) (filter (\<lambda>i. i \<in> A) [0 ..< length xs]) =
        map ((!) xs) (filter (\<lambda>i. i \<in> A) [0 ..< length xs])"
    by (rule map_cong) (auto simp: nth_append)
  then show ?case using snoc by (simp add: nths_append)
qed

text \<open>
  Claim C5. On a list of at least two vertices, \<^verbatim>\<open>remove_internal_edge_points\<close>
  returns the sublist of the points at the following indices: the first, the last, and
  every interior index whose step vector from the previous point differs from the step
  vector to the next point. An interior point is dropped exactly when the two step
  vectors are equal.
\<close>

theorem remove_internal_edge_points_corners:
  assumes "2 \<le> length vertices"
  shows "remove_internal_edge_points vertices =
     Inr (nths vertices {i. i = 0 \<or> i = length vertices - 1 \<or>
            (0 < i \<and> i < length vertices - 1 \<and>
             step_into vertices i \<noteq> step_into vertices (i + 1))})"
proof -
  let ?n = "length vertices"
  let ?A = "{i. i = 0 \<or> i = ?n - 1 \<or>
            (0 < i \<and> i < ?n - 1 \<and> step_into vertices i \<noteq> step_into vertices (i + 1))}"
  have ne: "vertices \<noteq> []" using assms by auto
  have split: "[0 ..< ?n] = 0 # [1 ..< ?n - 1] @ [?n - 1]"
  proof -
    define m where "m = ?n - 2"
    have n: "?n = Suc (Suc m)" using assms by (simp add: m_def)
    have a: "[0 ..< Suc (Suc m)] = 0 # [Suc 0 ..< Suc (Suc m)]"
      by (rule upt_conv_Cons) simp
    have b: "[Suc 0 ..< Suc (Suc m)] = [Suc 0 ..< Suc m] @ [Suc m]"
      by (rule upt_Suc_append) simp
    show ?thesis unfolding n using a b by (simp del: upt_Suc)
  qed
  have mid: "filter (\<lambda>i. i \<in> ?A) [1 ..< ?n - 1] =
             filter (\<lambda>i. step_into vertices i \<noteq> step_into vertices (i + 1)) [1 ..< ?n - 1]"
    by (rule filter_cong) auto
  have "nths vertices ?A =
        vertices ! 0 # map ((!) vertices)
           (filter (\<lambda>i. step_into vertices i \<noteq> step_into vertices (i + 1)) [1 ..< ?n - 1])
        @ [vertices ! (?n - 1)]"
    unfolding nths_map_filter split using mid by simp
  then show ?thesis
    using ne by (simp add: remove_internal_edge_points_def foldl_edge_point_step last_conv_nth)
qed

theorem remove_internal_edge_points_corners_witness:
  "2 \<le> length ([(0, 0), (0, 1), (0, 2), (0, 3), (-1, 3), (-2, 3), (-3, 3)] :: Vertex2D list) \<and>
   remove_internal_edge_points [(0, 0), (0, 1), (0, 2), (0, 3), (-1, 3), (-2, 3), (-3, 3)] =
     Inr (nths [(0, 0), (0, 1), (0, 2), (0, 3), (-1, 3), (-2, 3), (-3, 3)]
           {i. i = 0 \<or> i = length ([(0, 0), (0, 1), (0, 2), (0, 3), (-1, 3), (-2, 3), (-3, 3)] :: Vertex2D list) - 1 \<or>
             (0 < i \<and> i < length ([(0, 0), (0, 1), (0, 2), (0, 3), (-1, 3), (-2, 3), (-3, 3)] :: Vertex2D list) - 1 \<and>
              step_into [(0, 0), (0, 1), (0, 2), (0, 3), (-1, 3), (-2, 3), (-3, 3)] i \<noteq>
              step_into [(0, 0), (0, 1), (0, 2), (0, 3), (-1, 3), (-2, 3), (-3, 3)] (i + 1))})"
proof -
  let ?v = "[(0, 0), (0, 1), (0, 2), (0, 3), (-1, 3), (-2, 3), (-3, 3)] :: Vertex2D list"
  have h: "2 \<le> length ?v" by simp
  show ?thesis by (rule conjI[OF h remove_internal_edge_points_corners[OF h]])
qed

subsection \<open>The cap triangulation on an empty wall list\<close>

text \<open>
  Claim C10. With no wall perimeters at all, the unique-vertex list is empty and
  \<^verbatim>\<open>triangulate_walls\<close> returns the empty triangle list without raising,
  whatever the holes are; nothing is dumped and the external triangulation is not
  called (the list of events is empty), whatever the collaborator would do.
\<close>

theorem triangulate_walls_no_walls:
  "wall_perimeters_to_unique_vertices ([] :: Vertex2D list list) = [] \<and>
   triangulate_walls triangulate [] holes = ([], Inr [])"
  by (simp add: triangulate_walls_def wall_perimeters_to_unique_vertices_def
      list_to_index_map_def)

subsection \<open>Hole markers per walkable box\<close>

lemma matrix2holes_row_foldl:
  "foldl (\<lambda>ret xw. if snd xw \<noteq> 0 then ret @ [hole_marker (fst xw) y] else ret) ret xws =
   ret @ map (\<lambda>xw. hole_marker (fst xw) y) (filter (\<lambda>xw. snd xw \<noteq> 0) xws)"
  by (induction xws arbitrary: ret) auto

lemma enumerate_filter_map:
  "map (\<lambda>xw. f (fst xw)) (filter (\<lambda>xw. snd xw \<noteq> (0::int)) (List.enumerate n row)) =
   map f (filter (\<lambda>x. row ! (x - n) \<noteq> 0) [n ..< n + length row])"
proof (induction row arbitrary: n)
  case Nil
  then show ?case by simp
next
  case (Cons w row)
  have "filter (\<lambda>x. (w' # row) ! (x - n) \<noteq> 0) [Suc n ..< Suc n + length row] =
        filter (\<lambda>x. row ! (x - Suc n) \<noteq> 0) [Suc n ..< Suc n + length row]" for w'
  proof (rule filter_cong[OF refl])
    fix x assume "x \<in> set [Suc n ..< Suc n + length row]"
    then have "x - n = Suc (x - Suc n)" by auto
    then show "((w' # row) ! (x - n) \<noteq> 0) = (row ! (x - Suc n) \<noteq> 0)" by simp
  qed
  then show ?case using Cons.IH[of "Suc n"] by (simp add: upt_conv_Cons del: upt_Suc)
qed

lemma matrix2holes_row_eq:
  "matrix2holes_row y ret row =
   ret @ map (\<lambda>x. hole_marker x y) (filter (\<lambda>x. row ! x \<noteq> 0) [0 ..< length row])"
  using enumerate_filter_map[of "\<lambda>x. hole_marker x y" 0 row]
  by (simp add: matrix2holes_row_def matrix2holes_row_foldl)

lemma matrix2holes_foldl:
  "foldl (\<lambda>ret yr. matrix2holes_row (fst yr) ret (snd yr)) ret yrs =
   ret @ concat (map (\<lambda>yr. matrix2holes_row (fst yr) [] (snd yr)) yrs)"
proof (induction yrs arbitrary: ret)
  case Nil
  then show ?case by simp
next
  case (Cons yr yrs)
  have "matrix2holes_row (fst yr) ret (snd yr) = ret @ matrix2holes_row (fst yr) [] (snd yr)"
    by (simp add: matrix2holes_row_eq)
  then show ?case using Cons.IH by simp
qed

lemma enumerate_nth: "List.enumerate 0 xs = map (\<lambda>k. (k, xs ! k)) [0 ..< length xs]"
  using enumerate_map_upt[of 0 "(!) xs" "length xs"] by (simp add: map_nth)

text \<open>
  Claim C8, as amended. The list of hole markers holds exactly one marker per walkable
  box, not one per walkable region: it is, row by row and in each row from left to
  right, the list of the centres \<open>(x + 1/2, y + 1/2)\<close> of the boxes whose entry is
  not zero.
\<close>

theorem matrix2holes_per_cell:
  "matrix2holes matrix =
     concat (map (\<lambda>y. map (\<lambda>x. hole_marker x y)
                          (filter (\<lambda>x. matrix ! y ! x \<noteq> 0) [0 ..< length (matrix ! y)]))
                 [0 ..< length matrix])"
proof -
  have "matrix2holes matrix =
        concat (map (\<lambda>yr. matrix2holes_row (fst yr) [] (snd yr)) (List.enumerate 0 matrix))"
    by (simp add: matrix2holes_def matrix2holes_foldl)
  then show ?thesis
    by (simp add: enumerate_nth matrix2holes_row_eq comp_def)
qed

text \<open>
  Claim C8, as stated, fails: in the matrix below the two walkable boxes \<open>(1, 1)\<close>
  and \<open>(2, 1)\<close> are adjacent, so they form one walkable region, enclosed by blocked
  boxes; the list of markers holds two markers in it.
\<close>

theorem matrix2holes_two_in_one_region:
  "matrix2holes [[0, 0, 0, 0], [0, 1, 1, 0], [0, 0, 0, 0]] = [(3 / 2, 3 / 2), (5 / 2, 3 / 2)] \<and>
   \<not> at_most_one_marker_per_region [[0, 0, 0, 0], [0, 1, 1, 0], [0, 0, 0, 0]]
       (matrix2holes [[0, 0, 0, 0], [0, 1, 1, 0], [0, 0, 0, 0]])"
proof -
  let ?m = "[[0, 0, 0, 0], [0, 1, 1, 0], [0, 0, 0, 0]] :: WalkableMatrix"
  have h: "matrix2holes ?m = [(3 / 2, 3 / 2), (5 / 2, 3 / 2)]"
    by (simp add: matrix2holes_def matrix2holes_row_def hole_marker_def)
  have c1: "marker_cell (3 / 2, 3 / 2) = (1, 1)" by code_simp
  have c2: "marker_cell (5 / 2, 3 / 2) = (2, 1)" by code_simp
  have w1: "walkable_cell ?m (1, 1)" by (simp add: walkable_cell_def)
  have w2: "walkable_cell ?m (2, 1)" by (simp add: walkable_cell_def)
  have "adjacent_cells (1, 1) (2, 1)" by (simp add: adjacent_cells_def)
  then have s: "same_region ?m (1, 1) (2, 1)"
    using region_step[OF region_refl[OF w1] w2] by simp
  have "\<not> at_most_one_marker_per_region ?m [(3 / 2, 3 / 2), (5 / 2, 3 / 2)]"
    unfolding at_most_one_marker_per_region_def
  proof
    assume a: "\<forall>i<length [(3 / 2, 3 / 2), (5 / 2, 3 / 2) :: Hole].
       \<forall>j<length [(3 / 2, 3 / 2), (5 / 2, 3 / 2) :: Hole]. i \<noteq> j \<longrightarrow>
         \<not> same_region ?m (marker_cell ([(3 / 2, 3 / 2), (5 / 2, 3 / 2)] ! i))
                          (marker_cell ([(3 / 2, 3 / 2), (5 / 2, 3 / 2)] ! j))"
    from a[rule_format, of 0 1] show False using s c1 c2 by simp
  qed
  with h show ?thesis by simp
qed

subsection \<open>Non-rectangular matrices\<close>

lemma setitem_map_fst:
  "map fst (map (\<lambda>kv. if fst kv = k then (k, v) else kv) d) = map fst d"
  by (induction d) auto

lemma setitem_keys: "fst ` set (setitem d k v) = insert k (fst ` set d)"
proof (cases "k \<in> fst ` set d")
  case True
  have "fst ` set (setitem d k v) = set (map fst (map (\<lambda>kv. if fst kv = k then (k, v) else kv) d))"
    using True by (simp add: setitem_def del: map_map)
  also have "\<dots> = fst ` set d" by (simp only: setitem_map_fst set_map)
  finally show ?thesis using True by auto
next
  case False
  then show ?thesis by (simp add: setitem_def)
qed

lemma setitem_values: "snd ` set (setitem d k v) \<subseteq> insert v (snd ` set d)"
  by (auto simp: setitem_def image_iff split: if_splits)

lemma mat2map_row_snoc:
  "mat2map_row y st (row @ [w]) =
     (if w = 0 then setitem (fst (mat2map_row y st row)) (int (length row), y) 1
      else fst (mat2map_row y st row), Some (int (length row)))"
  by (simp add: mat2map_row_def)

lemma mat2map_row_Nil: "mat2map_row y st [] = st"
  by (simp add: mat2map_row_def)


lemma row_keys_snoc:
  "{(int x, y) | x. x < length (row @ [w]) \<and> (row @ [w]) ! x = (0::int)} =
   {(int x, y) | x. x < length row \<and> row ! x = 0} \<union> (if w = 0 then {(int (length row), y)} else {})"
  (is "?L = ?R")
proof (rule set_eqI)
  fix p
  show "p \<in> ?L \<longleftrightarrow> p \<in> ?R"
  proof
    assume "p \<in> ?L"
    then obtain x where x: "p = (int x, y)" "x < Suc (length row)" "(row @ [w]) ! x = 0" by auto
    show "p \<in> ?R"
    proof (cases "x < length row")
      case True
      then show ?thesis using x by (auto simp: nth_append)
    next
      case False
      then have "x = length row" using x(2) by simp
      then show ?thesis using x by simp
    qed
  next
    assume "p \<in> ?R"
    then consider x where "p = (int x, y)" "x < length row" "row ! x = 0"
      | "w = 0" "p = (int (length row), y)"
      by (auto split: if_splits)
    then show "p \<in> ?L"
    proof cases
      case 1
      then have "x < length (row @ [w]) \<and> (row @ [w]) ! x = 0" by (simp add: nth_append)
      then show ?thesis using 1(1) by blast
    next
      case 2
      then have "length row < length (row @ [w]) \<and> (row @ [w]) ! (length row) = 0" by simp
      then show ?thesis using 2(2) by blast
    qed
  qed
qed


lemma mat2map_row_snd:
  "snd (mat2map_row y st row) = (if row = [] then snd st else Some (int (length row) - 1))"
  by (induction row rule: rev_induct) (simp_all add: mat2map_row_Nil mat2map_row_snoc)



lemma mat2map_row_keys:
  "fst ` set (fst (mat2map_row y st row)) =
     fst ` set (fst st) \<union> {(int x, y) | x. x < length row \<and> row ! x = 0}"
proof (induction row rule: rev_induct)
  case Nil
  then show ?case by (simp add: mat2map_row_Nil)
next
  case (snoc w row)
  define r where "r = fst (mat2map_row y st row)"
  define K where "K = {(int x, y) | x. x < length row \<and> row ! x = 0}"
  define W where "W = (if w = 0 then {(int (length row), y)} else {})"
  define K' where "K' = {(int x, y) | x. x < length (row @ [w]) \<and> (row @ [w]) ! x = 0}"
  have k: "K' = K \<union> W"
    unfolding K'_def K_def W_def by (rule row_keys_snoc)
  have a: "fst ` set (fst (mat2map_row y st (row @ [w]))) = fst ` set r \<union> W"
    unfolding mat2map_row_snoc r_def W_def by (simp add: setitem_keys)
  have ih: "fst ` set r = fst ` set (fst st) \<union> K"
    unfolding r_def K_def by (rule snoc)
  have "fst ` set (fst (mat2map_row y st (row @ [w]))) = fst ` set (fst st) \<union> K'"
    by (simp only: a ih k Un_assoc)
  then show ?case unfolding K'_def .
qed

lemma mat2map_row_values:
  "snd ` set (fst (mat2map_row y st row)) \<subseteq> insert 1 (snd ` set (fst st))"
proof (induction row rule: rev_induct)
  case Nil
  then show ?case by (auto simp: mat2map_row_Nil)
next
  case (snoc w row)
  define r where "r = fst (mat2map_row y st row)"
  have "snd ` set (fst (mat2map_row y st (row @ [w]))) \<subseteq> insert 1 (snd ` set r)"
    unfolding mat2map_row_snoc r_def[symmetric]
    using setitem_values[of r "(int (length row), y)" 1] by (cases "w = 0") auto
  then show ?case using snoc unfolding r_def by blast
qed



lemma mat2map_rows_Nil: "mat2map_rows [] = ([], None, None)"
  by (simp add: mat2map_rows_def)

lemma mat2map_rows_snoc:
  "mat2map_rows (m @ [row]) =
     (fst (mat2map_row (int (length m)) (fst (mat2map_rows m), fst (snd (mat2map_rows m))) row),
      snd (mat2map_row (int (length m)) (fst (mat2map_rows m), fst (snd (mat2map_rows m))) row),
      Some (int (length m)))"
  by (simp add: mat2map_rows_def split: prod.splits)

lemma mat2map_rows_y:
  "snd (snd (mat2map_rows m)) = (if m = [] then None else Some (int (length m) - 1))"
  by (cases m rule: rev_cases) (simp_all add: mat2map_rows_Nil mat2map_rows_snoc)

lemma mat2map_rows_x:
  "fst (snd (mat2map_rows m)) =
     (if filter (\<lambda>r. r \<noteq> []) m = [] then None
      else Some (int (length (last (filter (\<lambda>r. r \<noteq> []) m))) - 1))"
  by (induction m rule: rev_induct)
     (simp_all add: mat2map_rows_Nil mat2map_rows_snoc mat2map_row_snd)

lemma matrix_keys_snoc:
  "{(int x, int y) | x y. y < length (m @ [row]) \<and> x < length ((m @ [row]) ! y) \<and>
      (m @ [row]) ! y ! x = (0::int)} =
   {(int x, int y) | x y. y < length m \<and> x < length (m ! y) \<and> m ! y ! x = 0} \<union>
   {(int x, int (length m)) | x. x < length row \<and> row ! x = 0}"
  (is "?L = ?A \<union> ?B")
proof (rule set_eqI)
  fix p
  show "p \<in> ?L \<longleftrightarrow> p \<in> ?A \<union> ?B"
  proof
    assume "p \<in> ?L"
    then obtain x y where xy: "p = (int x, int y)" "y < Suc (length m)"
      "x < length ((m @ [row]) ! y)" "(m @ [row]) ! y ! x = 0" by auto
    show "p \<in> ?A \<union> ?B"
    proof (cases "y < length m")
      case True
      then have "x < length (m ! y) \<and> m ! y ! x = 0" using xy by (simp add: nth_append)
      then have "p \<in> ?A" using xy(1) True by blast
      then show ?thesis by simp
    next
      case False
      then have y: "y = length m" using xy(2) by simp
      then have "x < length row \<and> row ! x = 0" using xy by simp
      then have "p \<in> ?B" using xy(1) y by blast
      then show ?thesis by simp
    qed
  next
    assume "p \<in> ?A \<union> ?B"
    then consider x y where "p = (int x, int y)" "y < length m" "x < length (m ! y)" "m ! y ! x = 0"
      | x where "p = (int x, int (length m))" "x < length row" "row ! x = 0"
      by auto
    then show "p \<in> ?L"
    proof cases
      case 1
      then have "y < length (m @ [row]) \<and> x < length ((m @ [row]) ! y) \<and> (m @ [row]) ! y ! x = 0"
        by (simp add: nth_append)
      then show ?thesis using 1(1) by blast
    next
      case 2
      then have "length m < length (m @ [row]) \<and> x < length ((m @ [row]) ! length m) \<and>
                 (m @ [row]) ! length m ! x = 0"
        by simp
      then show ?thesis using 2(1) by blast
    qed
  qed
qed

lemma mat2map_rows_keys:
  "fst ` set (fst (mat2map_rows m)) =
     {(int x, int y) | x y. y < length m \<and> x < length (m ! y) \<and> m ! y ! x = 0}"
proof (induction m rule: rev_induct)
  case Nil
  then show ?case by (simp add: mat2map_rows_Nil)
next
  case (snoc row m)
  define A where "A = {(int x, int y) | x y. y < length m \<and> x < length (m ! y) \<and> m ! y ! x = 0}"
  define B where "B = {(int x, int (length m)) | x. x < length row \<and> row ! x = 0}"
  have "fst ` set (fst (mat2map_rows (m @ [row]))) = fst ` set (fst (mat2map_rows m)) \<union> B"
    unfolding B_def by (simp add: mat2map_rows_snoc mat2map_row_keys)
  also have "\<dots> = A \<union> B" unfolding A_def by (simp only: snoc)
  also have "\<dots> = {(int x, int y) | x y. y < length (m @ [row]) \<and>
       x < length ((m @ [row]) ! y) \<and> (m @ [row]) ! y ! x = 0}"
    unfolding A_def B_def by (rule matrix_keys_snoc[symmetric])
  finally show ?case .
qed

lemma mat2map_rows_values: "snd ` set (fst (mat2map_rows m)) \<subseteq> {1}"
proof (induction m rule: rev_induct)
  case Nil
  then show ?case by (simp add: mat2map_rows_Nil)
next
  case (snoc row m)
  have "snd ` set (fst (mat2map_rows (m @ [row]))) \<subseteq> insert 1 (snd ` set (fst (mat2map_rows m)))"
    using mat2map_row_values[of "int (length m)" "(fst (mat2map_rows m), fst (snd (mat2map_rows m)))" row]
    by (simp add: mat2map_rows_snoc)
  then show ?case using snoc by blast
qed

lemma mat2map_cases:
  "mat2map matrix =
     (case fst (snd (mat2map_rows matrix)) of
        None \<Rightarrow> Inl UnboundLocalError
      | Some x \<Rightarrow>
          (case snd (snd (mat2map_rows matrix)) of
             None \<Rightarrow> Inl UnboundLocalError
           | Some y \<Rightarrow> Inr \<lparr>map_data = fst (mat2map_rows matrix), map_size = (x + 1, y + 1),
                              box_size = 1\<rparr>))"
  by (cases "mat2map_rows matrix") (simp add: mat2map_def split: option.splits)

text \<open>
  Claim C9, as amended. Nothing before \<^verbatim>\<open>BlocksMap.build\<close> compares the
  lengths of the rows. \<^verbatim>\<open>mat2map\<close> raises exactly when the matrix has no row or
  only empty rows (a loop variable is then unbound), and the pipeline stops with that
  error. On every other matrix, rectangular or not, \<^verbatim>\<open>mat2map\<close> returns the blocks
  map whose keys are the boxes holding 0, each with the value 1, whose width is the
  length of the last non-empty row, whose height is the number of rows and whose box
  size is 1; \<^verbatim>\<open>matrix2obj\<close> hands that blocks map to \<^verbatim>\<open>build\<close> and sorts
  what \<^verbatim>\<open>build\<close> returns.
\<close>

theorem mat2map_ignores_row_lengths:
  "(if \<forall>row \<in> set matrix. row = []
    then mat2map matrix = Inl UnboundLocalError \<and>
         matrix2obj_perimeters matrix = Some (Inl UnboundLocalError)
    else \<exists>b. mat2map matrix = Inr b \<and>
           map_size b = (int (length (last (filter (\<lambda>r. r \<noteq> []) matrix))), int (length matrix)) \<and>
           box_size b = 1 \<and>
           fst ` set (map_data b) =
             {(int x, int y) | x y. y < length matrix \<and> x < length (matrix ! y) \<and>
                                    matrix ! y ! x = 0} \<and>
           snd ` set (map_data b) \<subseteq> {1} \<and>
           matrix2obj_perimeters matrix =
             (case build b of
                None \<Rightarrow> None
              | Some (Inl e) \<Rightarrow> Some (Inl e)
              | Some (Inr wall_perimeters) \<Rightarrow> Some (Inr (sort wall_perimeters))))"
proof -
  define F where "F = filter (\<lambda>r. r \<noteq> []) matrix"
  define ret where "ret = fst (mat2map_rows matrix)"
  have xo: "fst (snd (mat2map_rows matrix)) =
            (if F = [] then None else Some (int (length (last F)) - 1))"
    unfolding F_def by (rule mat2map_rows_x)
  have yo: "snd (snd (mat2map_rows matrix)) =
            (if matrix = [] then None else Some (int (length matrix) - 1))"
    by (rule mat2map_rows_y)
  have keys: "fst ` set ret =
             {(int x, int y) | x y. y < length matrix \<and> x < length (matrix ! y) \<and>
                                    matrix ! y ! x = 0}"
    unfolding ret_def by (rule mat2map_rows_keys)
  have vals: "snd ` set ret \<subseteq> {1}"
    unfolding ret_def by (rule mat2map_rows_values)
  have e: "(\<forall>row \<in> set matrix. row = []) \<longleftrightarrow> F = []"
    unfolding F_def by (simp add: filter_empty_conv)
  show ?thesis
  proof (cases "F = []")
    case True
    have all: "\<forall>row \<in> set matrix. row = []" using True e by simp
    have "mat2map matrix = Inl UnboundLocalError"
      unfolding mat2map_cases xo using True by simp
    then have "mat2map matrix = Inl UnboundLocalError \<and>
               matrix2obj_perimeters matrix = Some (Inl UnboundLocalError)"
      by (simp add: matrix2obj_perimeters_def)
    then show ?thesis by (subst if_P[OF all])
  next
    case False
    then have m: "matrix \<noteq> []" unfolding F_def by auto
    have r: "mat2map matrix =
          Inr \<lparr>map_data = ret, map_size = (int (length (last F)), int (length matrix)),
               box_size = 1\<rparr>"
      unfolding mat2map_cases xo yo ret_def using False m by simp
    have ne: "\<not> (\<forall>row \<in> set matrix. row = [])" using False e by simp
    have "\<exists>b. mat2map matrix = Inr b \<and>
           map_size b = (int (length (last F)), int (length matrix)) \<and>
           box_size b = 1 \<and>
           fst ` set (map_data b) =
             {(int x, int y) | x y. y < length matrix \<and> x < length (matrix ! y) \<and>
                                    matrix ! y ! x = 0} \<and>
           snd ` set (map_data b) \<subseteq> {1} \<and>
           matrix2obj_perimeters matrix =
             (case build b of
                None \<Rightarrow> None
              | Some (Inl e) \<Rightarrow> Some (Inl e)
              | Some (Inr wall_perimeters) \<Rightarrow> Some (Inr (sort wall_perimeters)))"
      apply (rule exI[of _ "\<lparr>map_data = ret, map_size = (int (length (last F)), int (length matrix)),
               box_size = 1\<rparr>"])
      apply (intro conjI)
           apply (rule r)
          apply simp
         apply simp
        apply (simp only: BlocksMap.simps keys)
       apply (simp only: BlocksMap.simps vals)
      apply (simp add: matrix2obj_perimeters_def r)
      done
    then show ?thesis unfolding F_def by (subst if_not_P[OF ne])
  qed
qed

theorem mat2map_ignores_row_lengths_witness:
  "\<not> (\<forall>row \<in> set ([[0, 0], [0]] :: WalkableMatrix). row = []) \<and>
   (\<exists>b. mat2map [[0, 0], [0]] = Inr b \<and>
        map_size b = (int (length (last (filter (\<lambda>r. r \<noteq> []) ([[0, 0], [0]] :: WalkableMatrix)))),
                      int (length ([[0, 0], [0]] :: WalkableMatrix))) \<and>
        box_size b = 1 \<and>
        fst ` set (map_data b) =
          {(int x, int y) | x y. y < length ([[0, 0], [0]] :: WalkableMatrix) \<and>
             x < length (([[0, 0], [0]] :: WalkableMatrix) ! y) \<and>
             ([[0, 0], [0]] :: WalkableMatrix) ! y ! x = 0} \<and>
        snd ` set (map_data b) \<subseteq> {1} \<and>
        matrix2obj_perimeters [[0, 0], [0]] =
          (case build b of
             None \<Rightarrow> None
           | Some (Inl e) \<Rightarrow> Some (Inl e)
           | Some (Inr wall_perimeters) \<Rightarrow> Some (Inr (sort wall_perimeters))))"
proof -
  let ?M = "[[0, 0], [0]] :: WalkableMatrix"
  have ne: "\<not> (\<forall>row \<in> set ?M. row = [])" by simp
  show ?thesis
    using mat2map_ignores_row_lengths[of ?M] unfolding if_not_P[OF ne]
    by (rule conjI[OF ne])
qed

text \<open>
  Claim C9, as stated, fails: the matrix \<open>[[0, 0], [0]]\<close> is not rectangular, and
  the pipeline does not reject it: it is turned into a blocks map, \<^verbatim>\<open>build\<close>
  traces it and returns a wall perimeter.
\<close>

theorem non_rectangular_matrix_is_traced:
  "\<not> rectangular [[0, 0], [0]] \<and>
   matrix2obj_perimeters [[0, 0], [0]] =
     Some (Inr [[(0, 0), (2, 0), (2, 1), (1, 1), (1, 2), (0, 2), (0, 0)]])"
  by code_simp

subsection \<open>The export and the order of the faces\<close>









subsection \<open>Every traced perimeter is a closed loop\<close>

text \<open>
  The two lookup tables are checked on the sixteen block matrices: a move that
  arrives along a boundary edge is sent along a boundary edge of the same winding,
  two such arrivals at one vertex are sent to two different moves, and the first
  move of a walk leaves along a boundary edge.
\<close>

lemma table_step:
  "\<forall>bm \<in> set MATRICES. \<forall>d \<in> set DIRECTIONS. \<forall>w \<in> set [True, False].
     arrival_ok bm d w \<longrightarrow>
       (case rule_of bm d of None \<Rightarrow> False
        | Some r \<Rightarrow> r \<in> set DIRECTIONS \<and> depart_ok bm r w)"
  by code_simp

lemma table_inj:
  "\<forall>bm \<in> set MATRICES. \<forall>d1 \<in> set DIRECTIONS. \<forall>d2 \<in> set DIRECTIONS. \<forall>w \<in> set [True, False].
     arrival_ok bm d1 w \<and> arrival_ok bm d2 w \<and> rule_of bm d1 = rule_of bm d2 \<longrightarrow> d1 = d2"
  by code_simp

lemma table_start:
  "\<forall>bm \<in> set MATRICES.
     (case map_of POSSIBLE_DIRECTIONS bm of None \<Rightarrow> False
      | Some versors \<Rightarrow>
          versors \<noteq> [] \<longrightarrow>
            (case rule_of bm STILL of None \<Rightarrow> False
             | Some r \<Rightarrow> r \<in> set DIRECTIONS \<and> (\<exists>w \<in> set [True, False]. depart_ok bm r w)))"
  by code_simp

lemma table_possible:
  "\<forall>bm \<in> set MATRICES. map_of POSSIBLE_DIRECTIONS bm \<noteq> None"
  by code_simp

text \<open>
  With box size 1 the block matrix of a vertex is \<open>matrix_at\<close>, one of the
  sixteen.
\<close>

lemma trunc_div_1: "trunc_div a 1 = a"
  by (simp add: trunc_div_def sgn_if)

lemma vertex2boxes_unit:
  "box_size self = 1 \<Longrightarrow>
   vertex2boxes self v = Inr \<lparr>upleft = (fst v - 1, snd v - 1), upright = (fst v, snd v - 1),
                              downright = (fst v, snd v), downleft = (fst v - 1, snd v)\<rparr>"
  by (simp add: vertex2boxes_def map_vertex_def trunc_div_1)

lemma boxes2block_matrix_at:
  "boxes2block_matrix self \<lparr>upleft = (fst v - 1, snd v - 1), upright = (fst v, snd v - 1),
                              downright = (fst v, snd v), downleft = (fst v - 1, snd v)\<rparr>
   = matrix_at self v"
  by (simp add: boxes2block_matrix_def matrix_at_def block_at_def)

lemma block_at_01: "unit_boxes self \<Longrightarrow> block_at self p = 0 \<or> block_at self p = 1"
proof -
  assume u: "unit_boxes self"
  show ?thesis
  proof (cases "map_of (map_data self) p")
    case None
    then show ?thesis by (simp add: block_at_def dict_get_def)
  next
    case (Some a)
    then have "(p, a) \<in> set (map_data self)" by (rule map_of_SomeD)
    then have "a = 0 \<or> a = 1" using u unfolding unit_boxes_def by auto
    then show ?thesis using Some by (simp add: block_at_def dict_get_def)
  qed
qed

lemma block_at_key: "block_at self p \<noteq> 0 \<Longrightarrow> p \<in> fst ` set (map_data self)"
proof -
  assume a: "block_at self p \<noteq> 0"
  then obtain v where "map_of (map_data self) p = Some v"
    by (cases "map_of (map_data self) p") (auto simp: block_at_def dict_get_def)
  then have "(p, v) \<in> set (map_data self)" by (rule map_of_SomeD)
  then show ?thesis by force
qed

lemma matrix_at_in: "unit_boxes self \<Longrightarrow> matrix_at self v \<in> set MATRICES"
proof -
  assume u: "unit_boxes self"
  have m: "((a, b), (c, d)) \<in> set MATRICES"
    if "a = 0 \<or> a = 1" "b = 0 \<or> b = 1" "c = 0 \<or> c = 1" "d = 0 \<or> d = 1" for a b c d :: int
  proof -
    have "\<forall>a \<in> set [0, 1::int]. \<forall>b \<in> set [0, 1::int]. \<forall>c \<in> set [0, 1::int]. \<forall>d \<in> set [0, 1::int].
            ((a, b), (c, d)) \<in> set MATRICES"
      by code_simp
    then show ?thesis using that by (elim disjE) simp_all
  qed
  show ?thesis unfolding matrix_at_def
    by (rule m) (rule block_at_01[OF u])+
qed

text \<open>
  One round of the loop keeps the control state on the boundary and is injective
  there; the boundary is finite, since each of its edges touches a block of the
  map. An injective map of a finite set into itself brings every point back.
\<close>

lemma depart_arrival:
  assumes "r \<in> set DIRECTIONS" "depart_ok (matrix_at self v) r w"
  shows "arrival_ok (matrix_at self (sum_vectors v r)) r w"
proof -
  consider "r = LEFT" | "r = UP" | "r = RIGHT" | "r = DOWN"
    using assms(1) by (auto simp: DIRECTIONS_def)
  then show ?thesis
  proof cases
    case 1
    then show ?thesis using assms(2)
      by (simp add: depart_ok_def arrival_ok_def matrix_at_def sum_vectors_def
          LEFT_def UP_def RIGHT_def DOWN_def)
  next
    case 2
    then show ?thesis using assms(2)
      by (simp add: depart_ok_def arrival_ok_def matrix_at_def sum_vectors_def
          LEFT_def UP_def RIGHT_def DOWN_def)
  next
    case 3
    then show ?thesis using assms(2)
      by (simp add: depart_ok_def arrival_ok_def matrix_at_def sum_vectors_def
          LEFT_def UP_def RIGHT_def DOWN_def)
  next
    case 4
    then show ?thesis using assms(2)
      by (simp add: depart_ok_def arrival_ok_def matrix_at_def sum_vectors_def
          LEFT_def UP_def RIGHT_def DOWN_def)
  qed
qed

lemma boundary_rule:
  assumes u: "unit_boxes self" and b: "on_boundary self w c"
  shows "\<exists>r. rule_of (matrix_at self (fst c)) (snd c) = Some r \<and> r \<in> set DIRECTIONS \<and>
             depart_ok (matrix_at self (fst c)) r w"
proof -
  have m: "matrix_at self (fst c) \<in> set MATRICES" by (rule matrix_at_in[OF u])
  have d: "snd c \<in> set DIRECTIONS" and a: "arrival_ok (matrix_at self (fst c)) (snd c) w"
    using b by (simp_all add: on_boundary_def)
  have w: "w \<in> set [True, False]" by simp
  from table_step[rule_format, OF m d w a] show ?thesis
    by (cases "rule_of (matrix_at self (fst c)) (snd c)") auto
qed

lemma ctl_step_boundary:
  assumes u: "unit_boxes self" and b: "on_boundary self w c"
  shows "on_boundary self w (ctl_step self c) \<and>
         rule_of (matrix_at self (fst c)) (snd c) = Some (snd (ctl_step self c)) \<and>
         fst (ctl_step self c) = sum_vectors (fst c) (snd (ctl_step self c))"
proof -
  obtain r where r: "rule_of (matrix_at self (fst c)) (snd c) = Some r" "r \<in> set DIRECTIONS"
    "depart_ok (matrix_at self (fst c)) r w"
    using boundary_rule[OF u b] by blast
  have s: "ctl_step self c = (sum_vectors (fst c) r, r)" by (simp add: ctl_step_def r(1))
  have "arrival_ok (matrix_at self (sum_vectors (fst c) r)) r w"
    by (rule depart_arrival[OF r(2) r(3)])
  then show ?thesis using s r by (simp add: on_boundary_def)
qed

lemma sum_vectors_cancel: "sum_vectors a r = sum_vectors b r \<Longrightarrow> a = b"
  by (cases a; cases b) (simp add: sum_vectors_def)

lemma ctl_step_inj:
  assumes u: "unit_boxes self" and b1: "on_boundary self w c1" and b2: "on_boundary self w c2"
    and e: "ctl_step self c1 = ctl_step self c2"
  shows "c1 = c2"
proof -
  note s1 = ctl_step_boundary[OF u b1] and s2 = ctl_step_boundary[OF u b2]
  have "sum_vectors (fst c1) (snd (ctl_step self c1)) = sum_vectors (fst c2) (snd (ctl_step self c1))"
    using s1 s2 e by metis
  then have v: "fst c1 = fst c2" by (rule sum_vectors_cancel)
  have m: "matrix_at self (fst c1) \<in> set MATRICES" by (rule matrix_at_in[OF u])
  have d1: "snd c1 \<in> set DIRECTIONS" and a1: "arrival_ok (matrix_at self (fst c1)) (snd c1) w"
    using b1 by (simp_all add: on_boundary_def)
  have d2: "snd c2 \<in> set DIRECTIONS" and a2: "arrival_ok (matrix_at self (fst c1)) (snd c2) w"
    using b2 v by (simp_all add: on_boundary_def)
  have w: "w \<in> set [True, False]" by simp
  have r: "rule_of (matrix_at self (fst c1)) (snd c1) = rule_of (matrix_at self (fst c1)) (snd c2)"
    using s1 s2 e v by simp
  from table_inj[rule_format, OF m d1 d2 w] a1 a2 r have "snd c1 = snd c2" by blast
  with v show ?thesis by (simp add: prod_eq_iff)
qed

lemma arrival_has_block:
  "arrival_ok bm d w \<Longrightarrow>
   fst (fst bm) = 1 \<or> snd (fst bm) = 1 \<or> fst (snd bm) = 1 \<or> snd (snd bm) = 1"
  unfolding arrival_ok_def side_ok_def
  by (cases w; cases "d = RIGHT"; cases "d = LEFT"; cases "d = DOWN"; cases "d = UP") simp_all

lemma boundary_near_block:
  assumes "on_boundary self w c"
  shows "\<exists>k dx dy. k \<in> fst ` set (map_data self) \<and> (dx = 0 \<or> dx = 1) \<and>
           (dy = 0 \<or> dy = 1) \<and> fst c = (fst k + dx, snd k + dy)"
proof -
  let ?x = "fst (fst c)" and ?y = "snd (fst c)"
  have "arrival_ok (matrix_at self (fst c)) (snd c) w" using assms by (simp add: on_boundary_def)
  from arrival_has_block[OF this]
  have "block_at self (?x - 1, ?y - 1) \<noteq> 0 \<or> block_at self (?x, ?y - 1) \<noteq> 0 \<or>
             block_at self (?x - 1, ?y) \<noteq> 0 \<or> block_at self (?x, ?y) \<noteq> 0"
    unfolding matrix_at_def by (elim disjE) simp_all
  then consider "(?x - 1, ?y - 1) \<in> fst ` set (map_data self)"
    | "(?x, ?y - 1) \<in> fst ` set (map_data self)"
    | "(?x - 1, ?y) \<in> fst ` set (map_data self)"
    | "(?x, ?y) \<in> fst ` set (map_data self)"
    using block_at_key by blast
  then show ?thesis
  proof cases
    case 1
    have "fst c = (fst (?x - 1, ?y - 1) + 1, snd (?x - 1, ?y - 1) + 1)" by (simp add: prod_eq_iff)
    with 1 show ?thesis by (intro exI[of _ "(?x - 1, ?y - 1)"] exI[of _ 1] conjI) simp_all
  next
    case 2
    have "fst c = (fst (?x, ?y - 1) + 0, snd (?x, ?y - 1) + 1)" by (simp add: prod_eq_iff)
    with 2 show ?thesis by (intro exI[of _ "(?x, ?y - 1)"] exI[of _ 0] exI[of _ 1] conjI) simp_all
  next
    case 3
    have "fst c = (fst (?x - 1, ?y) + 1, snd (?x - 1, ?y) + 0)" by (simp add: prod_eq_iff)
    with 3 show ?thesis by (intro exI[of _ "(?x - 1, ?y)"] exI[of _ 1] exI[of _ 0] conjI) simp_all
  next
    case 4
    have "fst c = (fst (?x, ?y) + 0, snd (?x, ?y) + 0)" by (simp add: prod_eq_iff)
    with 4 show ?thesis by (intro exI[of _ "(?x, ?y)"] exI[of _ 0] conjI) simp_all
  qed
qed

lemma finite_boundary: "finite {c. on_boundary self w c}"
proof -
  define K where "K = fst ` set (map_data self)"
  define S :: "(Vertex2D \<times> Versor2D) set" where
    "S = (\<Union>k \<in> K. \<Union>dx \<in> {0, 1}. \<Union>dy \<in> {0, 1}. \<Union>d \<in> set DIRECTIONS.
            {((fst k + dx, snd k + dy), d)})"
  have fK: "finite K" unfolding K_def by simp
  have "finite S" unfolding S_def using fK by simp
  moreover have "{c. on_boundary self w c} \<subseteq> S"
  proof
    fix c assume "c \<in> {c. on_boundary self w c}"
    then have b: "on_boundary self w c" by simp
    from boundary_near_block[OF this]
    obtain k dx dy where k: "k \<in> K" "dx \<in> {0, 1}" "dy \<in> {0, 1}"
      "fst c = (fst k + dx, snd k + dy)"
      unfolding K_def by (elim exE conjE) simp
    have d: "snd c \<in> set DIRECTIONS" using b by (simp add: on_boundary_def)
    obtain v d' where c: "c = (v, d')" by (cases c)
    have v: "v = (fst k + dx, snd k + dy)" using k(4) c by simp
    have d'': "d' \<in> set DIRECTIONS" using d c by simp
    have "((fst k + dx, snd k + dy), d') \<in> S"
      unfolding S_def using k(1,2,3) d'' by blast
    then show "c \<in> S" unfolding c v .
  qed
  ultimately show ?thesis by (rule rev_finite_subset)
qed

lemma orbit_returns:
  assumes fin: "finite S" and closed: "\<And>x. x \<in> S \<Longrightarrow> f x \<in> S"
    and inj: "\<And>x y. x \<in> S \<Longrightarrow> y \<in> S \<Longrightarrow> f x = f y \<Longrightarrow> x = y" and s: "s \<in> S"
  shows "\<exists>k > 0. (f ^^ k) s = s"
proof -
  have inS: "(f ^^ n) s \<in> S" for n by (induction n) (simp_all add: s closed)
  have "\<not> inj (\<lambda>n. (f ^^ n) s)"
  proof
    assume "inj (\<lambda>n. (f ^^ n) s)"
    moreover have "range (\<lambda>n. (f ^^ n) s) \<subseteq> S" using inS by auto
    ultimately have "finite (UNIV :: nat set)"
      using fin by (meson finite_imageD finite_subset)
    then show False by simp
  qed
  then obtain i j where ij: "(f ^^ i) s = (f ^^ j) s" "i \<noteq> j" by (auto simp: inj_on_def)
  have unwind: "(f ^^ i) s = (f ^^ (i + d)) s \<Longrightarrow> s = (f ^^ d) s" for i d
  proof (induction i)
    case 0
    then show ?case by simp
  next
    case (Suc i)
    have "f ((f ^^ i) s) = f ((f ^^ (i + d)) s)" using Suc.prems by simp
    then have "(f ^^ i) s = (f ^^ (i + d)) s" using inj inS by blast
    then show ?case by (rule Suc.IH)
  qed
  show ?thesis
  proof (cases "i < j")
    case True
    then obtain d where "j = i + d" "d > 0" by (metis less_imp_add_positive)
    then show ?thesis using unwind[of i d] ij(1) by auto
  next
    case False
    then have "j < i" using ij(2) by simp
    then obtain d where "i = j + d" "d > 0" by (metis less_imp_add_positive)
    then show ?thesis using unwind[of j d] ij(1) by auto
  qed
qed

text \<open>
  The \<^verbatim>\<open>while\<close> loop follows \<open>ctl_step\<close>, so it comes back to the
  vertex where it started, and stops there.
\<close>

lemma walk_step_rule:
  assumes u: "unit_boxes self"
    and r: "rule_of (matrix_at self wall_vertex) versor = Some versor_next"
  shows "\<exists>tracked'. walk_step self (wall_perimeter, versor, wall_vertex, tracked) =
     Inr (wall_perimeter @ [sum_vectors wall_vertex versor_next], versor_next,
          sum_vectors wall_vertex versor_next, tracked')"
proof -
  have b: "box_size self = 1" using u by (simp add: unit_boxes_def)
  have m: "matrix_at self wall_vertex \<in> set MATRICES" by (rule matrix_at_in[OF u])
  obtain versors where p: "map_of POSSIBLE_DIRECTIONS (matrix_at self wall_vertex) = Some versors"
    using table_possible m by blast
  obtain rl where rl: "map_of RULES (matrix_at self wall_vertex) = Some rl"
    "map_of rl versor = Some versor_next"
    using r by (auto simp: rule_of_def split: option.splits)
  define B where "B = \<lparr>upleft = (fst wall_vertex - 1, snd wall_vertex - 1),
      upright = (fst wall_vertex, snd wall_vertex - 1),
      downright = (fst wall_vertex, snd wall_vertex),
      downleft = (fst wall_vertex - 1, snd wall_vertex)\<rparr>"
  have vb: "vertex2boxes self wall_vertex = Inr B"
    unfolding B_def by (rule vertex2boxes_unit[OF b])
  have bm: "boxes2block_matrix self B = matrix_at self wall_vertex"
    unfolding B_def by (rule boxes2block_matrix_at)
  show ?thesis
    by (simp add: walk_step_def vb bm getitem_def p rl Let_def)
qed

lemma walk_step_boundary:
  assumes u: "unit_boxes self" and b: "on_boundary self w (ctl st)"
  shows "\<exists>st'. walk_step self st = Inr st' \<and> ctl st' = ctl_step self (ctl st) \<and>
               fst st' = fst st @ [fst (ctl st')]"
proof -
  obtain wp versor wv tr where st: "st = (wp, versor, wv, tr)" by (cases st) auto
  have c: "ctl st = (wv, versor)" by (simp add: ctl_def st)
  from ctl_step_boundary[OF u b]
  have r: "rule_of (matrix_at self wv) versor = Some (snd (ctl_step self (wv, versor)))"
    and f: "fst (ctl_step self (wv, versor)) = sum_vectors wv (snd (ctl_step self (wv, versor)))"
    unfolding c by simp_all
  from walk_step_rule[OF u r, of wp tr] obtain tr' where
    "walk_step self st = Inr (wp @ [sum_vectors wv (snd (ctl_step self (wv, versor)))],
        snd (ctl_step self (wv, versor)), sum_vectors wv (snd (ctl_step self (wv, versor))), tr')"
    unfolding st by blast
  then show ?thesis using f unfolding c by (simp add: ctl_def st prod_eq_iff)
qed

lemma walk_loop_reaches:
  assumes u: "unit_boxes self"
  shows "1 \<le> n \<Longrightarrow> on_boundary self w (ctl st) \<Longrightarrow>
         fst ((ctl_step self ^^ n) (ctl st)) = first_vertex \<Longrightarrow>
         \<exists>st'. walk_loop self first_vertex st = Some (Inr st') \<and>
               fst (ctl st') = first_vertex \<and> last (fst st') = first_vertex \<and>
               (\<exists>more. fst st' = fst st @ more \<and> more \<noteq> [])"
proof (induction n arbitrary: st)
  case 0
  then show ?case by simp
next
  case (Suc n)
  obtain st1 where s1: "walk_step self st = Inr st1" "ctl st1 = ctl_step self (ctl st)"
    "fst st1 = fst st @ [fst (ctl st1)]"
    using walk_step_boundary[OF u Suc.prems(2)] by blast
  have v1: "fst (snd (snd st1)) = fst (ctl st1)" by (simp add: ctl_def)
  show ?case
  proof (cases "fst (ctl st1) = first_vertex")
    case True
    have "walk_loop self first_vertex st = Some (Inr st1)"
      by (subst walk_loop.simps) (simp add: s1(1) v1 True)
    then show ?thesis using True s1(3) by simp
  next
    case False
    have l: "walk_loop self first_vertex st = walk_loop self first_vertex st1"
      by (subst walk_loop.simps) (simp add: s1(1) v1 False)
    have n1: "1 \<le> n"
    proof (rule ccontr)
      assume "\<not> 1 \<le> n"
      then have "n = 0" by simp
      then show False using Suc.prems(3) s1(2) False by simp
    qed
    have b1: "on_boundary self w (ctl st1)"
      unfolding s1(2) using ctl_step_boundary[OF u Suc.prems(2)] by simp
    have r1: "fst ((ctl_step self ^^ n) (ctl st1)) = first_vertex"
      using Suc.prems(3) unfolding s1(2) by (simp add: funpow_swap1)
    from Suc.IH[OF n1 b1 r1] obtain st' more where
      "walk_loop self first_vertex st1 = Some (Inr st')" "fst (ctl st') = first_vertex"
      "last (fst st') = first_vertex" "fst st' = fst st1 @ more"
      by blast
    then show ?thesis unfolding l using s1(3) by simp
  qed
qed

lemma direction_moves: "r \<in> set DIRECTIONS \<Longrightarrow> sum_vectors v r \<noteq> v"
  by (cases v) (auto simp: DIRECTIONS_def LEFT_def UP_def RIGHT_def DOWN_def sum_vectors_def)

lemma walk_start:
  assumes u: "unit_boxes self"
    and p: "map_of POSSIBLE_DIRECTIONS (matrix_at self v) = Some versors" "versors \<noteq> []"
  shows "\<exists>st1 w. walk_step self ([v], (0, 0), v, tracked) = Inr st1 \<and>
           on_boundary self w (ctl st1) \<and> fst st1 = [v, fst (ctl st1)] \<and>
           fst (ctl st1) = sum_vectors v (snd (ctl st1))"
proof -
  have m: "matrix_at self v \<in> set MATRICES" by (rule matrix_at_in[OF u])
  from table_start m p obtain r w where
    r: "rule_of (matrix_at self v) STILL = Some r" "r \<in> set DIRECTIONS"
       "depart_ok (matrix_at self v) r w"
    by (fastforce split: option.splits)
  have r0: "rule_of (matrix_at self v) (0, 0) = Some r" using r(1) by (simp add: STILL_def)
  from walk_step_rule[OF u r0, of "[v]" tracked] obtain tracked' where
    s: "walk_step self ([v], (0, 0), v, tracked) =
          Inr ([v] @ [sum_vectors v r], r, sum_vectors v r, tracked')"
    by blast
  have a: "arrival_ok (matrix_at self (sum_vectors v r)) r w"
    by (rule depart_arrival[OF r(2) r(3)])
  define st1 where "st1 = ([v] @ [sum_vectors v r], r, sum_vectors v r, tracked')"
  have c: "ctl st1 = (sum_vectors v r, r)" by (simp add: ctl_def st1_def)
  have "on_boundary self w (ctl st1)" unfolding c using a r(2) by (simp add: on_boundary_def)
  moreover have "fst st1 = [v, fst (ctl st1)]" unfolding c by (simp add: st1_def)
  moreover have "fst (ctl st1) = sum_vectors v (snd (ctl st1))" unfolding c by simp
  moreover have "walk_step self ([v], (0, 0), v, tracked) = Inr st1" using s by (simp add: st1_def)
  ultimately show ?thesis by blast
qed

lemma funpow_boundary:
  assumes u: "unit_boxes self" and b: "on_boundary self w c"
  shows "on_boundary self w ((ctl_step self ^^ n) c)"
proof (induction n)
  case 0
  then show ?case using b by simp
next
  case (Suc n)
  then show ?case using ctl_step_boundary[OF u Suc] by simp
qed

lemma walk_loop_returns:
  assumes u: "unit_boxes self"
    and p: "map_of POSSIBLE_DIRECTIONS (matrix_at self v) = Some versors" "versors \<noteq> []"
  shows "\<exists>st'. walk_loop self v ([v], (0, 0), v, tracked) = Some (Inr st') \<and>
           fst (snd (snd st')) = v \<and> 2 \<le> length (fst st') \<and>
           hd (fst st') = v \<and> last (fst st') = v"
proof -
  obtain st1 w where s1: "walk_step self ([v], (0, 0), v, tracked) = Inr st1"
    "on_boundary self w (ctl st1)" "fst st1 = [v, fst (ctl st1)]"
    "fst (ctl st1) = sum_vectors v (snd (ctl st1))"
    using walk_start[OF u p, of tracked] by blast
  define c1 where "c1 = ctl st1"
  define f where "f = ctl_step self"
  define S where "S = {c. on_boundary self w c}"
  have d: "snd c1 \<in> set DIRECTIONS" using s1(2) by (simp add: on_boundary_def c1_def)
  have ne: "fst c1 \<noteq> v" using direction_moves[OF d, of v] s1(4) by (simp add: c1_def)
  have fin: "finite S" unfolding S_def by (rule finite_boundary)
  have closed: "f x \<in> S" if "x \<in> S" for x
    using ctl_step_boundary[OF u, of w x] that by (simp add: S_def f_def)
  have inj: "x = y" if "x \<in> S" "y \<in> S" "f x = f y" for x y
    using ctl_step_inj[OF u, of w x y] that by (simp add: S_def f_def)
  have cS: "c1 \<in> S" using s1(2) by (simp add: S_def c1_def)
  from orbit_returns[of S f c1, OF fin closed inj cS] obtain k where
    k: "0 < k" "(f ^^ k) c1 = c1"
    by blast
  obtain j where j: "k = Suc j" using k(1) by (cases k) auto
  define c' where "c' = (f ^^ j) c1"
  have bc': "on_boundary self w c'"
    unfolding c'_def f_def c1_def by (rule funpow_boundary[OF u s1(2)])
  have fc': "f c' = c1" using k(2) by (simp add: j c'_def)
  have "fst (f c') = sum_vectors (fst c') (snd (f c'))"
    using ctl_step_boundary[OF u bc'] by (simp add: f_def)
  then have "sum_vectors (fst c') (snd c1) = sum_vectors v (snd c1)"
    using s1(4) unfolding fc' c1_def by simp
  then have at: "fst c' = v" by (rule sum_vectors_cancel)
  have j1: "1 \<le> j"
  proof (rule ccontr)
    assume "\<not> 1 \<le> j"
    then have "j = 0" by simp
    then show False using at ne by (simp add: c'_def)
  qed
  have reach: "fst ((ctl_step self ^^ j) (ctl st1)) = v"
    using at by (simp add: c'_def f_def c1_def)
  from walk_loop_reaches[OF u j1 s1(2) reach] obtain st' more where
    r: "walk_loop self v st1 = Some (Inr st')" "fst (ctl st') = v" "last (fst st') = v"
       "fst st' = fst st1 @ more"
    by blast
  have v1: "fst (snd (snd st1)) \<noteq> v" using ne by (simp add: c1_def ctl_def)
  have "walk_loop self v ([v], (0, 0), v, tracked) = walk_loop self v st1"
    by (subst walk_loop.simps) (simp add: s1(1) v1)
  then have "walk_loop self v ([v], (0, 0), v, tracked) = Some (Inr st')" using r(1) by simp
  moreover have "fst (snd (snd st')) = v" using r(2) by (simp add: ctl_def)
  moreover have "2 \<le> length (fst st')" "hd (fst st') = v" using r(4) s1(3) by simp_all
  ultimately show ?thesis using r(3) by blast
qed

lemma walk_loop_returns_source:
  assumes u: "unit_boxes self"
    and b: "vertex2boxes self vertex = Inr v_boxes"
    and p: "getitem POSSIBLE_DIRECTIONS (boxes2block_matrix self v_boxes) = Inr versors"
    and ne: "versors \<noteq> []"
  shows "\<exists>st'. walk_loop self vertex ([vertex], (0, 0), vertex, tracked) = Some (Inr st') \<and>
           fst (snd (snd st')) = vertex \<and> 2 \<le> length (fst st') \<and>
           hd (fst st') = vertex \<and> last (fst st') = vertex"
proof -
  have bx: "box_size self = 1" using u by (simp add: unit_boxes_def)
  define B where "B = \<lparr>upleft = (fst vertex - 1, snd vertex - 1),
      upright = (fst vertex, snd vertex - 1),
      downright = (fst vertex, snd vertex),
      downleft = (fst vertex - 1, snd vertex)\<rparr>"
  have vb: "vertex2boxes self vertex = Inr B"
    unfolding B_def by (rule vertex2boxes_unit[OF bx])
  have bm: "boxes2block_matrix self B = matrix_at self vertex"
    unfolding B_def by (rule boxes2block_matrix_at)
  have "v_boxes = B" using b vb by simp
  then have "map_of POSSIBLE_DIRECTIONS (matrix_at self vertex) = Some versors"
    using p bm by (auto simp: getitem_def split: option.splits)
  from walk_loop_returns[OF u this ne] show ?thesis .
qed

text \<open>
  Whatever the blocks map, a walk that ends without an exception has ended on its
  starting vertex, and what the normalizer returns is closed.
\<close>

lemma walk_step_appends:
  "walk_step self st = Inr st1 \<Longrightarrow> fst st1 = fst st @ [fst (snd (snd st1))]"
  unfolding walk_step_def
  by (cases st) (auto simp: Let_def split: sum.splits)

lemma walk_loop_exit_aux:
  assumes "walk_loop self first_vertex st = Some r"
  shows "walk_exit first_vertex st r"
proof (rule walk_loop.raw_induct[where P = "\<lambda>self first_vertex st r. walk_exit first_vertex st r",
        OF _ assms])
  fix f self first_vertex st r
  assume ih: "\<And>self first_vertex st r. f self first_vertex st = Some r \<Longrightarrow> walk_exit first_vertex st r"
    and eq: "(case walk_step self st of Inl e \<Rightarrow> Some (Inl e)
              | Inr st' \<Rightarrow> if fst (snd (snd st')) = first_vertex then Some (Inr st')
                           else f self first_vertex st') = Some r"
  show "walk_exit first_vertex st r"
  proof (cases "walk_step self st")
    case (Inl e)
    then have "r = Inl e" using eq by simp
    then show ?thesis by (simp add: walk_exit_def)
  next
    case (Inr st1)
    note app = walk_step_appends[OF Inr]
    show ?thesis
    proof (cases "fst (snd (snd st1)) = first_vertex")
      case True
      then have "r = Inr st1" using eq Inr by simp
      then show ?thesis using True app by (simp add: walk_exit_def)
    next
      case False
      then have "f self first_vertex st1 = Some r" using eq Inr by simp
      from ih[OF this] show ?thesis using app
        by (cases r) (auto simp: walk_exit_def)
    qed
  qed
qed

lemma walk_loop_exit:
  assumes "walk_loop self first_vertex st = Some (Inr st')"
  shows "fst (snd (snd st')) = first_vertex \<and>
         (\<exists>more. fst st' = fst st @ more \<and> more \<noteq> [] \<and> last more = first_vertex)"
  using walk_loop_exit_aux[OF assms] by (simp add: walk_exit_def)

lemma remove_internal_edge_points_nonempty:
  "remove_internal_edge_points wp = Inr q \<Longrightarrow> q \<noteq> []"
  by (auto simp: remove_internal_edge_points_def split: if_splits)

lemma remove_internal_edge_points_total:
  "wp \<noteq> [] \<Longrightarrow> \<exists>q. remove_internal_edge_points wp = Inr q"
  by (simp add: remove_internal_edge_points_def)

lemma normalized_perimeter_closed:
  assumes "q \<noteq> []"
  shows "\<exists>p. normalized_perimeter q = Some (Inr p) \<and> closed_loop p"
proof -
  from normalized_perimeter_rotate[OF assms] obtain k where
    k: "hd (rotate k q) = Min (set q)"
       "normalized_perimeter q = Some (Inr (remdups_adj (rotate k q @ [Min (set q)])))"
    by blast
  have ne: "rotate k q \<noteq> []" using assms by simp
  have "hd (remdups_adj (rotate k q @ [Min (set q)])) = Min (set q)"
    using ne k(1) by (simp add: hd_remdups_adj)
  moreover have "last (remdups_adj (rotate k q @ [Min (set q)])) = Min (set q)"
    by (simp add: last_remdups_adj)
  moreover have "remdups_adj (rotate k q @ [Min (set q)]) \<noteq> []" by simp
  ultimately show ?thesis using k(2) by (simp add: closed_loop_def)
qed

lemma normalized_perimeter_empty: "normalized_perimeter [] = Some (Inl ValueError)"
  by (simp add: normalized_perimeter_def py_min_def)

lemma normalized_perimeter_Inr_closed:
  "normalized_perimeter q = Some (Inr p) \<Longrightarrow> closed_loop p"
  using normalized_perimeter_closed[of q] normalized_perimeter_empty
  by (cases "q = []") auto

lemma build_vertex_traced:
  assumes b: "build_vertex self (ret, tracked) vertex = Some (Inr (ret', tracked'))"
    and c: "\<forall>p \<in> set ret. closed_loop p \<and> traced_loop self p"
  shows "\<forall>p \<in> set ret'. closed_loop p \<and> traced_loop self p"
proof -
  have "ret' = ret \<or>
        (\<exists>st' q p. walk_loop self vertex ([vertex], (0, 0), vertex, tracked) = Some (Inr st') \<and>
           remove_internal_edge_points (fst st') = Inr q \<and>
           normalized_perimeter q = Some (Inr p) \<and> ret' = ret @ [p])"
    using b unfolding build_vertex_def Let_def
    by (auto split: sum.splits option.splits if_splits prod.splits)
  then show ?thesis
  proof
    assume "ret' = ret"
    then show ?thesis using c by simp
  next
    assume "\<exists>st' q p. walk_loop self vertex ([vertex], (0, 0), vertex, tracked) = Some (Inr st') \<and>
           remove_internal_edge_points (fst st') = Inr q \<and>
           normalized_perimeter q = Some (Inr p) \<and> ret' = ret @ [p]"
    then obtain st' q p where
      w: "walk_loop self vertex ([vertex], (0, 0), vertex, tracked) = Some (Inr st')"
      and q: "remove_internal_edge_points (fst st') = Inr q"
      and n: "normalized_perimeter q = Some (Inr p)"
      and r: "ret' = ret @ [p]"
      by blast
    from walk_loop_exit[OF w] obtain more where
      e: "fst (snd (snd st')) = vertex" "fst st' = [vertex] @ more" "more \<noteq> []"
         "last more = vertex"
      by auto
    have h: "hd (fst st') = vertex" "last (fst st') = vertex" using e by simp_all
    have "traced_loop self p" unfolding traced_loop_def using w e(1) h q n by blast
    moreover have "closed_loop p" by (rule normalized_perimeter_Inr_closed[OF n])
    ultimately show ?thesis using c r by simp
  qed
qed

lemma build_loop_traced:
  "build_loop self vs (ret, tracked) = Some (Inr (ret', tracked')) \<Longrightarrow>
   \<forall>p \<in> set ret. closed_loop p \<and> traced_loop self p \<Longrightarrow>
   \<forall>p \<in> set ret'. closed_loop p \<and> traced_loop self p"
proof (induction vs arbitrary: ret tracked)
  case Nil
  then show ?case by simp
next
  case (Cons v vs)
  from Cons.prems(1) obtain ret1 tracked1 where
    s: "build_vertex self (ret, tracked) v = Some (Inr (ret1, tracked1))"
       "build_loop self vs (ret1, tracked1) = Some (Inr (ret', tracked'))"
    by (auto split: option.splits sum.splits)
  have "\<forall>p \<in> set ret1. closed_loop p \<and> traced_loop self p"
    by (rule build_vertex_traced[OF s(1) Cons.prems(2)])
  then show ?case by (rule Cons.IH[OF s(2)])
qed

lemma build_traced:
  assumes "build self = Some (Inr wall_perimeters)"
  shows "\<forall>p \<in> set wall_perimeters. closed_loop p \<and> traced_loop self p"
proof (cases "map_data self = []")
  case True
  then show ?thesis using assms by (simp add: build_def)
next
  case False
  then obtain ret tracked where
    s: "build_loop self (get_grid_vertices self) ([], \<lambda>v. 0) = Some (Inr (ret, tracked))"
       "wall_perimeters = sort ret"
    using assms by (auto simp: build_def build_state_def split: option.splits sum.splits)
  have "\<forall>p \<in> set ret. closed_loop p \<and> traced_loop self p"
    by (rule build_loop_traced[OF s(1)]) simp
  then show ?thesis by (simp add: s(2))
qed

lemma build_vertex_total:
  assumes u: "unit_boxes self"
  shows "\<exists>bs'. build_vertex self bs vertex = Some (Inr bs')"
proof -
  obtain ret tracked where bs: "bs = (ret, tracked)" by (cases bs) auto
  have b: "box_size self = 1" using u by (simp add: unit_boxes_def)
  have m: "matrix_at self vertex \<in> set MATRICES" by (rule matrix_at_in[OF u])
  obtain versors where p: "map_of POSSIBLE_DIRECTIONS (matrix_at self vertex) = Some versors"
    using table_possible m by blast
  define B where "B = \<lparr>upleft = (fst vertex - 1, snd vertex - 1),
      upright = (fst vertex, snd vertex - 1),
      downright = (fst vertex, snd vertex),
      downleft = (fst vertex - 1, snd vertex)\<rparr>"
  have vb: "vertex2boxes self vertex = Inr B"
    unfolding B_def by (rule vertex2boxes_unit[OF b])
  have bm: "boxes2block_matrix self B = matrix_at self vertex"
    unfolding B_def by (rule boxes2block_matrix_at)
  show ?thesis
  proof (cases "versors = [] \<or> (length versors = 4 \<and> tracked vertex > 1) \<or>
                (length versors \<noteq> 4 \<and> tracked vertex > 0)")
    case True
    then show ?thesis
      by (auto simp: build_vertex_def bs vb bm getitem_def p Let_def)
  next
    case False
    then have ne: "versors \<noteq> []" by simp
    from walk_loop_returns[OF u p ne, of tracked] obtain st' where
      w: "walk_loop self vertex ([vertex], (0, 0), vertex, tracked) = Some (Inr st')"
         "2 \<le> length (fst st')"
      by blast
    obtain wp versor wv tracked' where st': "st' = (wp, versor, wv, tracked')"
      by (cases st') auto
    have wp: "wp \<noteq> []" using w(2) by (auto simp: st')
    obtain q where q: "remove_internal_edge_points wp = Inr q"
      using remove_internal_edge_points_total[OF wp] by blast
    have "q \<noteq> []" by (rule remove_internal_edge_points_nonempty[OF q])
    then obtain p' where n: "normalized_perimeter q = Some (Inr p')"
      using normalized_perimeter_closed by blast
    show ?thesis using False
      by (simp add: build_vertex_def bs vb bm getitem_def p Let_def w(1) st' q n)
  qed
qed

lemma build_loop_total:
  assumes u: "unit_boxes self"
  shows "\<exists>bs'. build_loop self vs bs = Some (Inr bs')"
proof (induction vs arbitrary: bs)
  case Nil
  then show ?case by simp
next
  case (Cons v vs)
  obtain bs1 where "build_vertex self bs v = Some (Inr bs1)"
    using build_vertex_total[OF u] by blast
  then show ?case using Cons.IH[of bs1] by simp
qed

lemma build_total:
  assumes u: "unit_boxes self"
  shows "\<exists>wall_perimeters. build self = Some (Inr wall_perimeters)"
proof -
  obtain bs' where "build_loop self (get_grid_vertices self) ([], \<lambda>v. 0) = Some (Inr bs')"
    using build_loop_total[OF u] by blast
  then show ?thesis by (cases bs') (simp add: build_def build_state_def)
qed

text \<open>
  Claim C1. Every wall perimeter in the list returned by \<^verbatim>\<open>build\<close> is a
  closed loop, and the walk that produced it stopped on its starting vertex: for
  every blocks map, each perimeter \<open>p\<close> of a returned list is not empty, has
  its first vertex equal to its last, and is the normalized form of the path of a
  walk that started at a vertex, returned with that vertex as its current vertex,
  and whose path begins and ends with it. For the blocks maps with box size 1 and
  values 0 or 1, \<^verbatim>\<open>build\<close> does return a list (no walk runs forever and
  none raises), and a walk started at any vertex with a non-empty set of possible
  directions, with any counters, returns to that vertex.
\<close>

theorem build_perimeters_closed:
  "(\<forall>wall_perimeters. build self = Some (Inr wall_perimeters) \<longrightarrow>
      (\<forall>p \<in> set wall_perimeters. p \<noteq> [] \<and> hd p = last p \<and>
         (\<exists>vertex tracked st'.
            walk_loop self vertex ([vertex], (0, 0), vertex, tracked) = Some (Inr st') \<and>
            fst (snd (snd st')) = vertex \<and> hd (fst st') = vertex \<and> last (fst st') = vertex \<and>
            (\<exists>q. remove_internal_edge_points (fst st') = Inr q \<and>
                 normalized_perimeter q = Some (Inr p))))) \<and>
   (unit_boxes self \<longrightarrow>
      (\<exists>wall_perimeters. build self = Some (Inr wall_perimeters)) \<and>
      (\<forall>vertex v_boxes versors tracked.
         vertex2boxes self vertex = Inr v_boxes \<and>
         getitem POSSIBLE_DIRECTIONS (boxes2block_matrix self v_boxes) = Inr versors \<and>
         versors \<noteq> [] \<longrightarrow>
         (\<exists>st'. walk_loop self vertex ([vertex], (0, 0), vertex, tracked) = Some (Inr st') \<and>
            fst (snd (snd st')) = vertex \<and> 2 \<le> length (fst st') \<and>
            hd (fst st') = vertex \<and> last (fst st') = vertex)))"
proof (intro conjI allI impI ballI)
  fix wall_perimeters p
  assume "build self = Some (Inr wall_perimeters)" and "p \<in> set wall_perimeters"
  then have t: "closed_loop p \<and> traced_loop self p" using build_traced by blast
  show "p \<noteq> []" "hd p = last p" using t by (simp_all add: closed_loop_def)
  show "\<exists>vertex tracked st'.
            walk_loop self vertex ([vertex], (0, 0), vertex, tracked) = Some (Inr st') \<and>
            fst (snd (snd st')) = vertex \<and> hd (fst st') = vertex \<and> last (fst st') = vertex \<and>
            (\<exists>q. remove_internal_edge_points (fst st') = Inr q \<and>
                 normalized_perimeter q = Some (Inr p))"
    using t unfolding traced_loop_def by blast
next
  assume "unit_boxes self"
  then show "\<exists>wall_perimeters. build self = Some (Inr wall_perimeters)" by (rule build_total)
next
  fix vertex v_boxes versors tracked
  assume u: "unit_boxes self"
    and a: "vertex2boxes self vertex = Inr v_boxes \<and>
         getitem POSSIBLE_DIRECTIONS (boxes2block_matrix self v_boxes) = Inr versors \<and>
         versors \<noteq> []"
  show "\<exists>st'. walk_loop self vertex ([vertex], (0, 0), vertex, tracked) = Some (Inr st') \<and>
            fst (snd (snd st')) = vertex \<and> 2 \<le> length (fst st') \<and>
            hd (fst st') = vertex \<and> last (fst st') = vertex"
    using walk_loop_returns_source[OF u] a by blast
qed

theorem build_perimeters_closed_witness:
  "unit_boxes \<lparr>map_data = [((0, 0), 1), ((1, 0), 1), ((0, 1), 1)], map_size = (2, 2), box_size = 1\<rparr> \<and>
   build \<lparr>map_data = [((0, 0), 1), ((1, 0), 1), ((0, 1), 1)], map_size = (2, 2), box_size = 1\<rparr>
     = Some (Inr [[(0, 0), (2, 0), (2, 1), (1, 1), (1, 2), (0, 2), (0, 0)]]) \<and>
   ([(0, 0), (2, 0), (2, 1), (1, 1), (1, 2), (0, 2), (0, 0)] \<noteq> ([] :: WallPerimeter) \<and>
    hd ([(0, 0), (2, 0), (2, 1), (1, 1), (1, 2), (0, 2), (0, 0)] :: WallPerimeter) =
    last [(0, 0), (2, 0), (2, 1), (1, 1), (1, 2), (0, 2), (0, 0)] \<and>
    (\<exists>vertex tracked st'.
       walk_loop \<lparr>map_data = [((0, 0), 1), ((1, 0), 1), ((0, 1), 1)], map_size = (2, 2), box_size = 1\<rparr>
         vertex ([vertex], (0, 0), vertex, tracked) = Some (Inr st') \<and>
       fst (snd (snd st')) = vertex \<and> hd (fst st') = vertex \<and> last (fst st') = vertex \<and>
       (\<exists>q. remove_internal_edge_points (fst st') = Inr q \<and>
            normalized_perimeter q =
              Some (Inr [(0, 0), (2, 0), (2, 1), (1, 1), (1, 2), (0, 2), (0, 0)])))) \<and>
   (vertex2boxes \<lparr>map_data = [((0, 0), 1), ((1, 0), 1), ((0, 1), 1)], map_size = (2, 2), box_size = 1\<rparr> (0, 0)
      = Inr \<lparr>upleft = (- 1, - 1), upright = (0, - 1), downright = (0, 0), downleft = (- 1, 0)\<rparr> \<and>
    getitem POSSIBLE_DIRECTIONS
      (boxes2block_matrix \<lparr>map_data = [((0, 0), 1), ((1, 0), 1), ((0, 1), 1)], map_size = (2, 2), box_size = 1\<rparr>
         \<lparr>upleft = (- 1, - 1), upright = (0, - 1), downright = (0, 0), downleft = (- 1, 0)\<rparr>)
      = Inr [(1, 0), (0, 1)] \<and>
    [(1, 0), (0, 1)] \<noteq> ([] :: Versor2D list)) \<and>
   (\<exists>st'. walk_loop \<lparr>map_data = [((0, 0), 1), ((1, 0), 1), ((0, 1), 1)], map_size = (2, 2), box_size = 1\<rparr>
            (0, 0) ([(0, 0)], (0, 0), (0, 0), \<lambda>v. 0) = Some (Inr st') \<and>
          fst (snd (snd st')) = (0, 0) \<and> 2 \<le> length (fst st') \<and>
          hd (fst st') = (0, 0) \<and> last (fst st') = (0, 0))"
proof -
  let ?B = "\<lparr>map_data = [((0, 0), 1), ((1, 0), 1), ((0, 1), 1)], map_size = (2, 2), box_size = 1\<rparr>"
  let ?L = "[(0, 0), (2, 0), (2, 1), (1, 1), (1, 2), (0, 2), (0, 0)] :: WallPerimeter"
  let ?VB = "\<lparr>upleft = (- 1, - 1), upright = (0, - 1), downright = (0, 0), downleft = (- 1, 0)\<rparr>"
  have u: "unit_boxes ?B" by (simp add: unit_boxes_def)
  have b: "build ?B = Some (Inr [?L])" by code_simp
  have s: "vertex2boxes ?B (0, 0) = Inr ?VB \<and>
           getitem POSSIBLE_DIRECTIONS (boxes2block_matrix ?B ?VB) = Inr [(1, 0), (0, 1)] \<and>
           [(1, 0), (0, 1)] \<noteq> ([] :: Versor2D list)"
    by code_simp
  note t = build_perimeters_closed[of ?B]
  have m: "?L \<in> set [?L]" by simp
  have 1: "?L \<noteq> [] \<and> hd ?L = last ?L \<and>
    (\<exists>vertex tracked st'.
       walk_loop ?B vertex ([vertex], (0, 0), vertex, tracked) = Some (Inr st') \<and>
       fst (snd (snd st')) = vertex \<and> hd (fst st') = vertex \<and> last (fst st') = vertex \<and>
       (\<exists>q. remove_internal_edge_points (fst st') = Inr q \<and>
            normalized_perimeter q = Some (Inr ?L)))"
    by (rule bspec[OF mp[OF spec[OF conjunct1[OF t]] b] m])
  have 2: "\<exists>st'. walk_loop ?B (0, 0) ([(0, 0)], (0, 0), (0, 0), \<lambda>v. 0) = Some (Inr st') \<and>
          fst (snd (snd st')) = (0, 0) \<and> 2 \<le> length (fst st') \<and>
          hd (fst st') = (0, 0) \<and> last (fst st') = (0, 0)"
    by (rule mp[OF spec[OF spec[OF spec[OF spec[OF conjunct2[OF mp[OF conjunct2[OF t] u]]]]]] s])
  show ?thesis by (rule conjI[OF u conjI[OF b conjI[OF 1 conjI[OF s 2]]]])
qed

end
